theory Spec2Isabelle
  imports Main "HOL-Library.Sublist"
begin

section \<open>WordPress media downloader: data model\<close>

text \<open>
  The program (\<^verbatim>\<open>download_wp_media.py\<close>) talks to two paginated REST collections of
  one site: \<^verbatim>\<open>/wp-json/wp/v2/media\<close> and \<^verbatim>\<open>/wp-json/wp/v2/posts\<close>.  A decoded
  JSON item is a dictionary of which the program reads a few keys with \<^verbatim>\<open>.get\<close>;
  a key that is absent (or \<^verbatim>\<open>null\<close>) reads as \<^verbatim>\<open>None\<close>.  The ids are integers, the
  other fields strings, and the body of a 200 response is a list of such items, as the
  data model of the specification has them.  The lines the program prints are left out.
\<close>

record media_item =
  m_id :: "int option"              \<comment> \<open>\<^verbatim>\<open>item.get("id")\<close>\<close>
  m_source_url :: "string option"   \<comment> \<open>\<^verbatim>\<open>item.get("source_url")\<close>\<close>
  m_date :: "string option"         \<comment> \<open>\<^verbatim>\<open>item.get("date")\<close>\<close>

record post =
  p_id :: "int option"
  p_date :: "string option"         \<comment> \<open>\<^verbatim>\<open>post.get("date")\<close>\<close>
  p_content :: "string"             \<comment> \<open>\<^verbatim>\<open>post.get("content", {}).get("rendered", "")\<close>\<close>

text \<open>
  The outcome of one \<^verbatim>\<open>requests.get\<close>: the call raises (any exception), or it returns
  a response with a status code and a body, the decoded JSON list of items.
\<close>

datatype 'a response = Transport_error | Http int "'a list"

text \<open>
  An endpoint is a server with a state of its own: from its state, the page number and
  the page size of a request, it gives a response and its next state.  Nothing is
  assumed about it: it may answer the same request differently each time.
\<close>

type_synonym ('w, 'a) endpoint = "'w \<Rightarrow> int \<Rightarrow> int \<Rightarrow> 'a response \<times> 'w"

text \<open>One entry of the log of requests: page number, page size, and the response.\<close>

type_synonym 'a exchange = "int \<times> int \<times> 'a response"

definition INITIAL_PER_PAGE :: int where
  "INITIAL_PER_PAGE = 100"

definition MIN_PER_PAGE :: int where
  "MIN_PER_PAGE = 1"

section \<open>The loop \<^verbatim>\<open>while True\<close>\<close>

text \<open>
  Both paginators are a \<^verbatim>\<open>while True:\<close> whose body ends in \<^verbatim>\<open>continue\<close> (or falls
  through to the next iteration) or in \<^verbatim>\<open>break\<close>.  The body is a function from the
  state to the next state, tagged with the way it ends; the loop may run forever, so
  its result is an option and \<open>None\<close> means that it never ends.
\<close>

datatype 'st flow = Continue 'st | Break 'st

partial_function (option) while_true :: "('st \<Rightarrow> 'st flow) \<Rightarrow> 'st \<Rightarrow> 'st option" where
  "while_true body st =
     (case body st of Continue st' \<Rightarrow> while_true body st' | Break st' \<Rightarrow> Some st')"

declare while_true.simps [code]

section \<open>Helper functions: the date subfolder\<close>

text \<open>
  \<^verbatim>\<open>get_date_subfolder\<close> is called with whatever the JSON held under \<^verbatim>\<open>"date"\<close>.  Of a
  Python value the function uses the method \<^verbatim>\<open>replace\<close>, which strings have and
  \<^verbatim>\<open>None\<close> and numbers have not.
\<close>

datatype py_value = Py_str string | Py_none | Py_int int

datatype py_error = ValueError | AttributeError

text \<open>
  The library's \<^verbatim>\<open>datetime\<close>: the calendar date, the time of day, and the offset of the
  time zone in microseconds, if the string gave one.
\<close>

record datetime =
  year :: nat
  month :: nat
  day :: nat
  hour :: nat
  minute :: nat
  second :: nat
  microsecond :: nat
  utcoffset :: "int option"

definition is_digit :: "char \<Rightarrow> bool" where
  "is_digit c \<longleftrightarrow> c \<in> set ''0123456789''"

definition digit_value :: "char \<Rightarrow> nat" where
  "digit_value c = length (takeWhile (\<lambda>d. d \<noteq> c) ''0123456789'')"

text \<open>A field of decimal digits, of the width the grammar fixes: its value, if it is one.\<close>

definition parse_digits :: "string \<Rightarrow> nat option" where
  "parse_digits s =
     (if s \<noteq> [] \<and> list_all is_digit s
      then Some (foldl (\<lambda>n c. 10 * n + digit_value c) 0 s) else None)"

text \<open>\<^verbatim>\<open>YYYY-MM-DD\<close>, ten characters.\<close>

definition parse_isoformat_date :: "string \<Rightarrow> (nat \<times> nat \<times> nat) option" where
  "parse_isoformat_date dstr =
     (if length dstr = 10 \<and> dstr ! 4 = CHR ''-'' \<and> dstr ! 7 = CHR ''-'' then
        (case (parse_digits (take 4 dstr), parse_digits (take 2 (drop 5 dstr)),
               parse_digits (take 2 (drop 8 dstr))) of
           (Some y, Some m, Some d) \<Rightarrow> Some (y, m, d)
         | _ \<Rightarrow> None)
      else None)"

text \<open>\<^verbatim>\<open>.fff\<close> or \<^verbatim>\<open>.ffffff\<close>: the microseconds.\<close>

definition parse_fraction :: "string \<Rightarrow> nat option" where
  "parse_fraction s =
     (case s of
        [] \<Rightarrow> Some 0
      | c # f \<Rightarrow>
          if c = CHR ''.'' \<and> length f = 3 then map_option (\<lambda>n. n * 1000) (parse_digits f)
          else if c = CHR ''.'' \<and> length f = 6 then parse_digits f
          else None)"

text \<open>\<^verbatim>\<open>HH[:MM[:SS[.fff[fff]]]]\<close>: hours, minutes, seconds and microseconds.\<close>

definition parse_hh_mm_ss_ff :: "string \<Rightarrow> (nat \<times> nat \<times> nat \<times> nat) option" where
  "parse_hh_mm_ss_ff tstr =
     (case parse_digits (take 2 tstr) of
        None \<Rightarrow> None
      | Some hh \<Rightarrow>
          if length tstr < 2 then None
          else if length tstr = 2 then Some (hh, 0, 0, 0)
          else if tstr ! 2 \<noteq> CHR '':'' \<or> length tstr < 5 then None
          else
            (case parse_digits (take 2 (drop 3 tstr)) of
               None \<Rightarrow> None
             | Some mm \<Rightarrow>
                 if length tstr = 5 then Some (hh, mm, 0, 0)
                 else if tstr ! 5 \<noteq> CHR '':'' \<or> length tstr < 8 then None
                 else
                   (case (parse_digits (take 2 (drop 6 tstr)), parse_fraction (drop 8 tstr)) of
                      (Some ss, Some us) \<Rightarrow> Some (hh, mm, ss, us)
                    | _ \<Rightarrow> None)))"

text \<open>
  The time of day with an optional offset \<^verbatim>\<open>+HH:MM[:SS[.ffffff]]\<close> (or \<^verbatim>\<open>-\<close>): the time
  and the offset in microseconds.
\<close>

definition parse_isoformat_time :: "string \<Rightarrow> ((nat \<times> nat \<times> nat \<times> nat) \<times> int option) option" where
  "parse_isoformat_time tstr =
     (let timestr = takeWhile (\<lambda>c. c \<noteq> CHR ''+'' \<and> c \<noteq> CHR ''-'') tstr;
          rest = dropWhile (\<lambda>c. c \<noteq> CHR ''+'' \<and> c \<noteq> CHR ''-'') tstr
      in case parse_hh_mm_ss_ff timestr of
           None \<Rightarrow> None
         | Some t \<Rightarrow>
             (case rest of
                [] \<Rightarrow> Some (t, None)
              | sign # tzstr \<Rightarrow>
                  if length tzstr \<notin> {5, 8, 15} then None
                  else
                    (case parse_hh_mm_ss_ff tzstr of
                       None \<Rightarrow> None
                     | Some (h, m, s, us) \<Rightarrow>
                         let off = (if sign = CHR ''-'' then - 1 else 1) *
                                   (((int h * 60 + int m) * 60 + int s) * 1000000 + int us)
                         in Some (t, Some off))))"

definition is_leap :: "nat \<Rightarrow> bool" where
  "is_leap y \<longleftrightarrow> y mod 4 = 0 \<and> (y mod 100 \<noteq> 0 \<or> y mod 400 = 0)"

definition days_in_month :: "nat \<Rightarrow> nat \<Rightarrow> nat" where
  "days_in_month y m =
     (if m = 2 then (if is_leap y then 29 else 28)
      else if m \<in> {4, 6, 9, 11} then 30 else 31)"

text \<open>
  \<^verbatim>\<open>datetime.fromisoformat\<close>, after the grammar the library documents for it in Python
  3.7 to 3.10, \<^verbatim>\<open>YYYY-MM-DD[*HH[:MM[:SS[.fff[fff]]]][+HH:MM[:SS[.ffffff]]]]\<close> where \<^verbatim>\<open>*\<close>
  is any one character, and the ranges the constructor of \<^verbatim>\<open>datetime\<close> checks.  A string
  that is not of that grammar or not in those ranges raises \<^verbatim>\<open>ValueError\<close>.  (The grammar
  has no \<^verbatim>\<open>Z\<close>, which is why the program removes it.  Later versions of the library read
  more strings as dates, such as \<^verbatim>\<open>20240115\<close>; what they read from a string of this
  grammar is the same.)
\<close>

definition fromisoformat :: "string \<Rightarrow> py_error + datetime" where
  "fromisoformat date_string =
     (case parse_isoformat_date (take 10 date_string) of
        None \<Rightarrow> Inl ValueError
      | Some (y, m, d) \<Rightarrow>
          (case (if length date_string \<le> 10 then Some ((0, 0, 0, 0), None)
                 else parse_isoformat_time (drop 11 date_string)) of
             None \<Rightarrow> Inl ValueError
           | Some ((hh, mm, ss, us), tz) \<Rightarrow>
               if 1 \<le> y \<and> y \<le> 9999 \<and> 1 \<le> m \<and> m \<le> 12 \<and> 1 \<le> d \<and> d \<le> days_in_month y m \<and>
                  hh \<le> 23 \<and> mm \<le> 59 \<and> ss \<le> 59 \<and>
                  (case tz of None \<Rightarrow> True | Some off \<Rightarrow> \<bar>off\<bar> < 86400000000)
               then Inr \<lparr>year = y, month = m, day = d, hour = hh, minute = mm, second = ss,
                         microsecond = us, utcoffset = tz\<rparr>
               else Inl ValueError))"

definition digit_char :: "nat \<Rightarrow> char" where
  "digit_char n = ''0123456789'' ! (n mod 10)"

text \<open>A natural number in decimal, without padding.\<close>

fun decimal :: "nat \<Rightarrow> string" where
  "decimal n = (if n < 10 then [digit_char n] else decimal (n div 10) @ [digit_char n])"

declare decimal.simps [simp del]

text \<open>
  \<^verbatim>\<open>dt.strftime("%Y-%m-%d")\<close> as CPython up to 3.12 gives it with the GNU C library:
  month and day on two digits, and the year in decimal without padding, so that only the
  years from 1000 come out on four digits (the year 999 is \<^verbatim>\<open>999\<close>).  Other C libraries,
  and later versions of the library, pad the year to four digits.
\<close>

definition strftime_Ymd :: "datetime \<Rightarrow> string" where
  "strftime_Ymd dt =
     decimal (year dt) @
     [CHR ''-'', digit_char (month dt div 10), digit_char (month dt), CHR ''-'',
      digit_char (day dt div 10), digit_char (day dt)]"

text \<open>\<^verbatim>\<open>date_str.replace("Z", "")\<close>: a value that is not a string has no such method.\<close>

definition replace_Z :: "py_value \<Rightarrow> py_error + string" where
  "replace_Z date_str =
     (case date_str of
        Py_str s \<Rightarrow> Inr (filter (\<lambda>c. c \<noteq> CHR ''Z'') s)
      | _ \<Rightarrow> Inl AttributeError)"

text \<open>
  \<^verbatim>\<open>get_date_subfolder\<close> (lines 41--50): the \<^verbatim>\<open>except\<close> clause catches \<^verbatim>\<open>ValueError\<close> and
  lets every other exception through.
\<close>

definition get_date_subfolder :: "py_value \<Rightarrow> py_error + string" where
  "get_date_subfolder date_str =
     (case replace_Z date_str of
        Inl e \<Rightarrow> if e = ValueError then Inr ''unknown-date'' else Inl e
      | Inr s \<Rightarrow>
          (case fromisoformat s of
             Inl e \<Rightarrow> if e = ValueError then Inr ''unknown-date'' else Inl e
           | Inr dt \<Rightarrow> Inr (strftime_Ymd dt)))"

text \<open>Python's \<^verbatim>\<open>x or default\<close> for a string that may be missing.\<close>

definition or_default :: "string option \<Rightarrow> string \<Rightarrow> string" where
  "or_default x d = (case x of None \<Rightarrow> d | Some s \<Rightarrow> if s = [] then d else s)"

section \<open>1) Fetch media via the media endpoint\<close>

text \<open>
  The local variables of \<^verbatim>\<open>fetch_all_media_items\<close>, with the state of the server
  (\<open>world\<close>) and the log of the requests made so far (\<open>exchanges\<close>), which are the
  effects of the function.  The value the Python function returns is \<open>all_items\<close>.
\<close>

record 'w media_state =
  world :: 'w
  page_num :: int
  per_page :: int
  all_seen_ids :: "int option set"
  all_items :: "media_item list"
  exchanges :: "media_item exchange list"

text \<open>
  The \<^verbatim>\<open>for item in data\<close> loop (lines 130--136): the accumulator is
  \<^verbatim>\<open>(all_items, all_seen_ids, new_page_ids)\<close>.
\<close>

fun scan_items ::
  "media_item list \<Rightarrow> media_item list \<times> int option set \<times> int option list
     \<Rightarrow> media_item list \<times> int option set \<times> int option list" where
  "scan_items [] acc = acc"
| "scan_items (item # data) (items, seen, new_page_ids) =
     (let media_id = m_id item in
      if media_id \<notin> seen
      then scan_items data (items @ [item], insert media_id seen, new_page_ids @ [media_id])
      else scan_items data (items, seen, new_page_ids))"

text \<open>One iteration of the loop of \<^verbatim>\<open>fetch_all_media_items\<close> (lines 103--146).\<close>

definition media_iteration :: "('w, media_item) endpoint \<Rightarrow> 'w media_state \<Rightarrow> 'w media_state flow" where
  "media_iteration MEDIA_API st =
     (case MEDIA_API (world st) (page_num st) (per_page st) of (r, w') \<Rightarrow>
        let st1 = st\<lparr>world := w', exchanges := exchanges st @ [(page_num st, per_page st, r)]\<rparr> in
        (case r of
           Transport_error \<Rightarrow> Break st1
         | Http status_code data \<Rightarrow>
             if status_code = 400 then
               (if per_page st1 > MIN_PER_PAGE
                then Continue (st1\<lparr>per_page := max MIN_PER_PAGE (per_page st1 div 2)\<rparr>)
                else Break st1)
             else if status_code = 200 then
               (if data = [] then Break st1
                else
                  (case scan_items data (all_items st1, all_seen_ids st1, []) of
                     (items, seen, new_page_ids) \<Rightarrow>
                       let st2 = st1\<lparr>all_items := items, all_seen_ids := seen\<rparr> in
                       if new_page_ids = [] then Break st2
                       else Continue (st2\<lparr>page_num := page_num st2 + 1\<rparr>)))
             else Break st1))"

definition media_start :: "'w \<Rightarrow> 'w media_state" where
  "media_start w =
     \<lparr>world = w, page_num = 1, per_page = INITIAL_PER_PAGE, all_seen_ids = {},
      all_items = [], exchanges = []\<rparr>"

definition fetch_all_media_items :: "('w, media_item) endpoint \<Rightarrow> 'w \<Rightarrow> 'w media_state option" where
  "fetch_all_media_items MEDIA_API w = while_true (media_iteration MEDIA_API) (media_start w)"

section \<open>2) Fallback: fetch posts and parse images\<close>

record 'w posts_state =
  p_world :: 'w
  p_page_num :: int
  p_per_page :: int
  all_posts :: "post list"
  p_exchanges :: "post exchange list"

text \<open>One iteration of the loop of \<^verbatim>\<open>fetch_all_posts\<close> (lines 164--187).\<close>

definition posts_iteration :: "('w, post) endpoint \<Rightarrow> 'w posts_state \<Rightarrow> 'w posts_state flow" where
  "posts_iteration POSTS_API st =
     (case POSTS_API (p_world st) (p_page_num st) (p_per_page st) of (resp, w') \<Rightarrow>
        let st1 = st\<lparr>p_world := w',
                     p_exchanges := p_exchanges st @ [(p_page_num st, p_per_page st, resp)]\<rparr> in
        (case resp of
           Transport_error \<Rightarrow> Break st1
         | Http status_code data \<Rightarrow>
             if status_code = 400 then Break st1
             else if status_code = 200 then
               (if data = [] then Break st1
                else Continue (st1\<lparr>all_posts := all_posts st1 @ data,
                                   p_page_num := p_page_num st1 + 1\<rparr>))
             else Break st1))"

definition posts_start :: "'w \<Rightarrow> 'w posts_state" where
  "posts_start w =
     \<lparr>p_world = w, p_page_num = 1, p_per_page = 20, all_posts = [], p_exchanges = []\<rparr>"

definition fetch_all_posts :: "('w, post) endpoint \<Rightarrow> 'w \<Rightarrow> 'w posts_state option" where
  "fetch_all_posts POSTS_API w = while_true (posts_iteration POSTS_API) (posts_start w)"

text \<open>
  \<^verbatim>\<open>parse_images_from_posts\<close> (lines 191--216).  Two library functions are parameters:
  \<open>find_all_img\<close> is the HTML parser, which gives the values of the \<^verbatim>\<open>src\<close> attributes of
  the \<^verbatim>\<open>img\<close> tags of a fragment in the order of the document, and \<open>urljoin\<close> resolves a
  reference against a base.  The result is the list of pairs \<^verbatim>\<open>(img_url, date_str)\<close>.
\<close>

fun parse_images_from_posts ::
  "(string \<Rightarrow> string \<Rightarrow> string) \<Rightarrow> (string \<Rightarrow> string list) \<Rightarrow> string \<Rightarrow> post list
     \<Rightarrow> (string \<times> string) list" where
  "parse_images_from_posts urljoin find_all_img SITE_URL [] = []"
| "parse_images_from_posts urljoin find_all_img SITE_URL (post # posts) =
     (let date_str = or_default (p_date post) ''unknown-date'';
          content_html = p_content post
      in map (\<lambda>img_url.
                (if prefix ''//'' img_url then ''https:'' @ img_url
                 else if prefix ''/'' img_url then urljoin SITE_URL img_url
                 else img_url,
                 date_str))
           (find_all_img content_html))
     @ parse_images_from_posts urljoin find_all_img SITE_URL posts"

section \<open>Main logic\<close>

text \<open>
  What \<^verbatim>\<open>main\<close> does is the calls it makes, in order: the two paginators, and
  \<^verbatim>\<open>download_file\<close> with a URL and a date string.  (\<^verbatim>\<open>download_file\<close> and the creation of
  the directories are the file system's and the network's business and are not modelled
  further.)
\<close>

datatype call =
  Call_fetch_all_media_items
| Call_fetch_all_posts
| Call_download_file string string

fun is_fetch :: "call \<Rightarrow> bool" where
  "is_fetch (Call_download_file url date_str) = False"
| "is_fetch c = True"

text \<open>A run of \<^verbatim>\<open>main\<close>: the calls it makes, and whether it returns.\<close>

record main_run =
  calls :: "call list"
  returns :: bool

text \<open>
  \<^verbatim>\<open>main\<close> (lines 221--245).  Both endpoints are of the same site, so they share the
  state of the server.  When a paginator never returns, its call is the last that
  \<^verbatim>\<open>main\<close> makes, and \<^verbatim>\<open>main\<close> does not return.
\<close>

definition main ::
  "(string \<Rightarrow> string \<Rightarrow> string) \<Rightarrow> (string \<Rightarrow> string list) \<Rightarrow> string
     \<Rightarrow> ('w, media_item) endpoint \<Rightarrow> ('w, post) endpoint \<Rightarrow> 'w \<Rightarrow> main_run" where
  "main urljoin find_all_img SITE_URL MEDIA_API POSTS_API w =
     (case fetch_all_media_items MEDIA_API w of
        None \<Rightarrow> \<lparr>calls = [Call_fetch_all_media_items], returns = False\<rparr>
      | Some m \<Rightarrow>
          let media_items = all_items m in
          if media_items = [] then
            (case fetch_all_posts POSTS_API (world m) of
               None \<Rightarrow>
                 \<lparr>calls = [Call_fetch_all_media_items, Call_fetch_all_posts], returns = False\<rparr>
             | Some p \<Rightarrow>
                 let posts = all_posts p;
                     post_images = parse_images_from_posts urljoin find_all_img SITE_URL posts
                 in \<lparr>calls = [Call_fetch_all_media_items, Call_fetch_all_posts] @
                              map (\<lambda>(img_url, post_date). Call_download_file img_url post_date)
                                post_images,
                     returns = True\<rparr>)
          else
            \<lparr>calls = Call_fetch_all_media_items #
                 concat (map (\<lambda>item.
                     let source_url = m_source_url item;
                         date_str = or_default (m_date item) []
                     in (case source_url of
                           None \<Rightarrow> []
                         | Some url \<Rightarrow> if url \<noteq> [] then [Call_download_file url date_str] else []))
                   media_items),
             returns = True\<rparr>)"

section \<open>The library's \<^verbatim>\<open>urljoin\<close>\<close>

text \<open>
  \<^verbatim>\<open>urllib.parse.urljoin\<close> on strings, after the library's source: \<^verbatim>\<open>urlsplit\<close>,
  \<^verbatim>\<open>urlparse\<close>, the resolution of the path and \<^verbatim>\<open>urlunparse\<close>.  Left out are the
  stripping of control characters and the validity checks of the authority that the
  library has added over time.  The program itself takes \<^verbatim>\<open>urljoin\<close> as given: in the
  model of \<^verbatim>\<open>parse_images_from_posts\<close> and of \<^verbatim>\<open>main\<close> it is a parameter, and this
  definition is what the examples put in its place.
\<close>

text \<open>\<^verbatim>\<open>s.partition(c)\<close> when \<open>c\<close> occurs in \<open>s\<close>: the parts before and after the first \<open>c\<close>.\<close>

definition partition_at :: "char \<Rightarrow> string \<Rightarrow> (string \<times> string) option" where
  "partition_at c s =
     (if c \<in> set s then Some (takeWhile (\<lambda>x. x \<noteq> c) s, tl (dropWhile (\<lambda>x. x \<noteq> c) s))
      else None)"

text \<open>\<^verbatim>\<open>s.split(c)\<close>.\<close>

primrec split_on :: "char \<Rightarrow> string \<Rightarrow> string list" where
  "split_on c [] = [[]]"
| "split_on c (x # xs) =
     (if x = c then [] # split_on c xs
      else (case split_on c xs of [] \<Rightarrow> [[x]] | seg # segs \<Rightarrow> (x # seg) # segs))"

text \<open>\<^verbatim>\<open>c.join(segments)\<close>.\<close>

fun join_with :: "char \<Rightarrow> string list \<Rightarrow> string" where
  "join_with c [] = []"
| "join_with c [seg] = seg"
| "join_with c (seg # segs) = seg @ c # join_with c segs"

definition uses_relative :: "string list" where
  "uses_relative = [[], ''ftp'', ''http'', ''gopher'', ''nntp'', ''imap'', ''wais'', ''file'',
     ''https'', ''shttp'', ''mms'', ''prospero'', ''rtsp'', ''rtsps'', ''rtspu'', ''sftp'',
     ''svn'', ''svn+ssh'', ''ws'', ''wss'']"

definition uses_netloc :: "string list" where
  "uses_netloc = [[], ''ftp'', ''http'', ''gopher'', ''nntp'', ''telnet'', ''imap'', ''wais'',
     ''file'', ''mms'', ''https'', ''shttp'', ''snews'', ''prospero'', ''rtsp'', ''rtsps'',
     ''rtspu'', ''rsync'', ''svn'', ''svn+ssh'', ''sftp'', ''nfs'', ''git'', ''git+ssh'',
     ''ws'', ''wss'', ''itms-services'']"

definition uses_params :: "string list" where
  "uses_params = [[], ''ftp'', ''hdl'', ''prospero'', ''http'', ''imap'', ''https'', ''shttp'',
     ''rtsp'', ''rtsps'', ''rtspu'', ''sip'', ''sips'', ''mms'', ''sftp'', ''tel'']"

definition ascii_lowercase :: string where
  "ascii_lowercase = ''abcdefghijklmnopqrstuvwxyz''"

definition ascii_uppercase :: string where
  "ascii_uppercase = ''ABCDEFGHIJKLMNOPQRSTUVWXYZ''"

definition scheme_chars :: string where
  "scheme_chars = ascii_lowercase @ ascii_uppercase @ ''0123456789'' @ ''+-.''"

definition lower :: "string \<Rightarrow> string" where
  "lower s =
     map (\<lambda>c. case map_of (zip ascii_uppercase ascii_lowercase) c of None \<Rightarrow> c | Some l \<Rightarrow> l) s"

text \<open>\<^verbatim>\<open>urlsplit(url, scheme)\<close>: scheme, netloc, path, query, fragment.\<close>

definition urlsplit :: "string \<Rightarrow> string \<Rightarrow> string \<times> string \<times> string \<times> string \<times> string" where
  "urlsplit url0 scheme0 =
     (let (scheme, url1) =
            (case partition_at CHR '':'' url0 of
               None \<Rightarrow> (scheme0, url0)
             | Some (pre, post) \<Rightarrow>
                 if pre \<noteq> [] \<and> hd pre \<in> set (ascii_lowercase @ ascii_uppercase) \<and>
                    list_all (\<lambda>c. c \<in> set scheme_chars) pre
                 then (lower pre, post) else (scheme0, url0));
          (netloc, url2) =
            (if take 2 url1 = ''//''
             then (takeWhile (\<lambda>c. c \<notin> set ''/?#'') (drop 2 url1),
                   dropWhile (\<lambda>c. c \<notin> set ''/?#'') (drop 2 url1))
             else ([], url1));
          (url3, fragment) =
            (case partition_at CHR ''#'' url2 of None \<Rightarrow> (url2, []) | Some (a, b) \<Rightarrow> (a, b));
          (url4, query) =
            (case partition_at CHR ''?'' url3 of None \<Rightarrow> (url3, []) | Some (a, b) \<Rightarrow> (a, b))
      in (scheme, netloc, url4, query, fragment))"

text \<open>\<^verbatim>\<open>_splitparams\<close>: the parameters are what follows the first \<^verbatim>\<open>;\<close> of the last segment.\<close>

definition splitparams :: "string \<Rightarrow> string \<times> string" where
  "splitparams url =
     (let dir = rev (dropWhile (\<lambda>c. c \<noteq> CHR ''/'') (rev url));
          last_segment = rev (takeWhile (\<lambda>c. c \<noteq> CHR ''/'') (rev url))
      in case partition_at CHR '';'' last_segment of
           None \<Rightarrow> (url, [])
         | Some (a, b) \<Rightarrow> (dir @ a, b))"

text \<open>\<^verbatim>\<open>urlparse(url, scheme)\<close>: scheme, netloc, path, params, query, fragment.\<close>

definition urlparse ::
  "string \<Rightarrow> string \<Rightarrow> string \<times> string \<times> string \<times> string \<times> string \<times> string" where
  "urlparse url0 scheme0 =
     (case urlsplit url0 scheme0 of (scheme, netloc, url, query, fragment) \<Rightarrow>
        if scheme \<in> set uses_params \<and> CHR '';'' \<in> set url
        then (case splitparams url of (url', params) \<Rightarrow> (scheme, netloc, url', params, query, fragment))
        else (scheme, netloc, url, [], query, fragment))"

definition urlunparse ::
  "string \<times> string \<times> string \<times> string \<times> string \<times> string \<Rightarrow> string" where
  "urlunparse components =
     (case components of (scheme, netloc, url0, params, query, fragment) \<Rightarrow>
        let url1 = (if params \<noteq> [] then url0 @ '';'' @ params else url0);
            url2 = (if netloc \<noteq> [] \<or> (scheme \<noteq> [] \<and> scheme \<in> set uses_netloc \<and> take 2 url1 \<noteq> ''//'')
                    then ''//'' @ netloc @ (if url1 \<noteq> [] \<and> take 1 url1 \<noteq> ''/'' then ''/'' @ url1 else url1)
                    else url1);
            url3 = (if scheme \<noteq> [] then scheme @ '':'' @ url2 else url2);
            url4 = (if query \<noteq> [] then url3 @ ''?'' @ query else url3)
        in if fragment \<noteq> [] then url4 @ ''#'' @ fragment else url4)"

text \<open>The loop over the segments: \<^verbatim>\<open>..\<close> pops, \<^verbatim>\<open>.\<close> is skipped.\<close>

fun resolve_segments :: "string list \<Rightarrow> string list \<Rightarrow> string list" where
  "resolve_segments [] resolved_path = resolved_path"
| "resolve_segments (seg # segments) resolved_path =
     (if seg = ''..'' then resolve_segments segments (butlast resolved_path)
      else if seg = ''.'' then resolve_segments segments resolved_path
      else resolve_segments segments (resolved_path @ [seg]))"

definition urllib_urljoin :: "string \<Rightarrow> string \<Rightarrow> string" where
  "urllib_urljoin base url =
     (if base = [] then url
      else if url = [] then base
      else
        case urlparse base [] of (bscheme, bnetloc, bpath, bparams, bquery, bfragment) \<Rightarrow>
        case urlparse url bscheme of (scheme, netloc0, path, params, query, fragment) \<Rightarrow>
          if scheme \<noteq> bscheme \<or> scheme \<notin> set uses_relative then url
          else if scheme \<in> set uses_netloc \<and> netloc0 \<noteq> []
          then urlunparse (scheme, netloc0, path, params, query, fragment)
          else
            let netloc = (if scheme \<in> set uses_netloc then bnetloc else netloc0) in
            if path = [] \<and> params = []
            then urlunparse (scheme, netloc, bpath, bparams,
                             if query = [] then bquery else query, fragment)
            else
              let base_parts0 = split_on CHR ''/'' bpath;
                  base_parts = (if last base_parts0 \<noteq> [] then butlast base_parts0 else base_parts0);
                  joined = base_parts @ split_on CHR ''/'' path;
                  segments =
                    (if take 1 path = ''/'' then split_on CHR ''/'' path
                     else if length joined < 2 then joined
                     else hd joined # filter (\<lambda>seg. seg \<noteq> []) (butlast (tl joined)) @ [last joined]);
                  resolved_path0 = resolve_segments segments [];
                  resolved_path = (if last segments \<in> {''.'', ''..''}
                                   then resolved_path0 @ [[]] else resolved_path0);
                  new_path = join_with CHR ''/'' resolved_path
              in urlunparse (scheme, netloc, if new_path = [] then ''/'' else new_path,
                             params, query, fragment))"

section \<open>Reading a run\<close>

fun ex_page :: "'a exchange \<Rightarrow> int" where
  "ex_page (page, n, r) = page"

fun ex_size :: "'a exchange \<Rightarrow> int" where
  "ex_size (page, n, r) = n"

fun ex_resp :: "'a exchange \<Rightarrow> 'a response" where
  "ex_resp (page, n, r) = r"

text \<open>The response is a 400 (bad request).\<close>

fun is_400 :: "'a response \<Rightarrow> bool" where
  "is_400 (Http status_code data) = (status_code = 400)"
| "is_400 Transport_error = False"

text \<open>The response is a 200 with at least one item: a page of the collection.\<close>

fun is_page :: "'a response \<Rightarrow> bool" where
  "is_page (Http status_code data) = (status_code = 200 \<and> data \<noteq> [])"
| "is_page Transport_error = False"

text \<open>The items an exchange delivered: the body of a 200 response, nothing otherwise.\<close>

fun ok_batch :: "'a exchange \<Rightarrow> 'a list" where
  "ok_batch (page, n, Http status_code data) = (if status_code = 200 then data else [])"
| "ok_batch (page, n, Transport_error) = []"

text \<open>The ids of the items received in a log of exchanges.\<close>

definition received_ids :: "media_item exchange list \<Rightarrow> int option set" where
  "received_ids t = m_id ` set (concat (map ok_batch t))"

text \<open>
  Exchange \<open>i\<close> of the log is a stagnant page: a 200 with at least one item and with no
  id that was not received in an exchange before it.
\<close>

definition stagnant :: "media_item exchange list \<Rightarrow> nat \<Rightarrow> bool" where
  "stagnant t i \<longleftrightarrow>
     is_page (ex_resp (t ! i)) \<and> m_id ` set (ok_batch (t ! i)) \<subseteq> received_ids (take i t)"

text \<open>\<^verbatim>\<open>item.get("id")\<close> is \<^verbatim>\<open>None\<close>: the item has no id.\<close>

definition id_less :: "media_item \<Rightarrow> bool" where
  "id_less item \<longleftrightarrow> m_id item = None"

text \<open>The states the server can be in after any sequence of requests, from state \<open>w\<close>.\<close>

inductive_set worlds :: "('w, 'a) endpoint \<Rightarrow> 'w \<Rightarrow> 'w set"
  for API :: "('w, 'a) endpoint" and w :: 'w where
  start: "w \<in> worlds API w"
| serve: "w' \<in> worlds API w \<Longrightarrow> snd (API w' page n) \<in> worlds API w"

text \<open>
  The ids the media endpoint can ever return: those of the items of a 200 response to
  some request in some state it can be in.
\<close>

definition ids_ever_returned :: "('w, media_item) endpoint \<Rightarrow> 'w \<Rightarrow> int option set" where
  "ids_ever_returned API w =
     {i. \<exists>w' \<in> worlds API w. \<exists>page n data. fst (API w' page n) = Http 200 data \<and> i \<in> m_id ` set data}"

text \<open>A date bucket: \<^verbatim>\<open>YYYY-MM-DD\<close>, digits and two dashes.\<close>

definition is_date_bucket :: "string \<Rightarrow> bool" where
  "is_date_bucket b \<longleftrightarrow>
     length b = 10 \<and> b ! 4 = CHR ''-'' \<and> b ! 7 = CHR ''-'' \<and>
     list_all is_digit (take 4 b) \<and> list_all is_digit (take 2 (drop 5 b)) \<and>
     list_all is_digit (take 2 (drop 8 b))"

text \<open>
  A bucket whose year has \<open>k\<close> digits instead of four; a short year has one, two or three.
\<close>

definition is_bucket_of_width :: "nat \<Rightarrow> string \<Rightarrow> bool" where
  "is_bucket_of_width k b \<longleftrightarrow>
     length b = k + 6 \<and> b ! k = CHR ''-'' \<and> b ! (k + 3) = CHR ''-'' \<and>
     list_all is_digit (take k b) \<and> list_all is_digit (take 2 (drop (k + 1) b)) \<and>
     list_all is_digit (take 2 (drop (k + 4) b))"

definition is_short_year_bucket :: "string \<Rightarrow> bool" where
  "is_short_year_bucket b \<longleftrightarrow>
     is_bucket_of_width 1 b \<or> is_bucket_of_width 2 b \<or> is_bucket_of_width 3 b"

text \<open>
  The rule of the specification for one raw reference: scheme-relative, then
  site-relative, then absolute.
\<close>

definition spec_normalize :: "(string \<Rightarrow> string \<Rightarrow> string) \<Rightarrow> string \<Rightarrow> string \<Rightarrow> string" where
  "spec_normalize resolve base ref =
     (case ref of
        a # b # rest \<Rightarrow>
          if a = CHR ''/'' \<and> b = CHR ''/'' then ''https:'' @ ref
          else if a = CHR ''/'' then resolve base ref
          else ref
      | [a] \<Rightarrow> if a = CHR ''/'' then resolve base ref else ref
      | [] \<Rightarrow> ref)"

section \<open>Invariants of the two loops\<close>

text \<open>The ids of the collected items are pairwise different and are exactly the seen ids.\<close>

definition ids_inv :: "'w media_state \<Rightarrow> bool" where
  "ids_inv st \<longleftrightarrow>
     distinct (map m_id (all_items st)) \<and> m_id ` set (all_items st) = all_seen_ids st"

text \<open>The posts collected are all the items of all the pages received, in order.\<close>

definition posts_inv :: "'w posts_state \<Rightarrow> bool" where
  "posts_inv st \<longleftrightarrow> all_posts st = concat (map ok_batch (p_exchanges st))"

text \<open>
  How a request follows the exchange before it: after a 400 the size before was above 1,
  the new size is its half, and the page is the same; after any other response the size
  is the same and the page is the next.
\<close>

definition follows :: "'a exchange \<Rightarrow> int \<Rightarrow> int \<Rightarrow> bool" where
  "follows e page n \<longleftrightarrow>
     (if is_400 (ex_resp e) then 1 < ex_size e \<and> n = ex_size e div 2 \<and> page = ex_page e
      else n = ex_size e \<and> page = ex_page e + 1)"

definition shrink_inv :: "'w media_state \<Rightarrow> bool" where
  "shrink_inv st \<longleftrightarrow>
     1 \<le> per_page st \<and>
     (\<forall>e \<in> set (exchanges st). 1 \<le> ex_size e) \<and>
     successively (\<lambda>e e'. follows e (ex_page e') (ex_size e')) (exchanges st) \<and>
     (if exchanges st = [] then page_num st = 1 \<and> per_page st = INITIAL_PER_PAGE
      else ex_page (hd (exchanges st)) = 1 \<and> ex_size (hd (exchanges st)) = INITIAL_PER_PAGE \<and>
           follows (last (exchanges st)) (page_num st) (per_page st))"

definition shrink_final :: "'w media_state \<Rightarrow> bool" where
  "shrink_final st \<longleftrightarrow>
     (\<forall>e \<in> set (exchanges st). 1 \<le> ex_size e) \<and>
     successively (\<lambda>e e'. follows e (ex_page e') (ex_size e')) (exchanges st) \<and>
     exchanges st \<noteq> [] \<and>
     ex_page (hd (exchanges st)) = 1 \<and> ex_size (hd (exchanges st)) = INITIAL_PER_PAGE \<and>
     (is_400 (ex_resp (last (exchanges st))) \<longrightarrow> ex_size (last (exchanges st)) = 1)"

definition stag_inv :: "'w media_state \<Rightarrow> bool" where
  "stag_inv st \<longleftrightarrow>
     all_seen_ids st = received_ids (exchanges st) \<and>
     (\<forall>i < length (exchanges st). \<not> stagnant (exchanges st) i)"

definition stag_final :: "'w media_state \<Rightarrow> bool" where
  "stag_final st \<longleftrightarrow>
     (\<forall>i < length (exchanges st). stagnant (exchanges st) i \<longrightarrow> Suc i = length (exchanges st))"

definition idless_inv :: "'w media_state \<Rightarrow> bool" where
  "idless_inv st \<longleftrightarrow>
     (None \<in> all_seen_ids st \<longleftrightarrow> filter id_less (concat (map ok_batch (exchanges st))) \<noteq> []) \<and>
     filter id_less (all_items st) = take 1 (filter id_less (concat (map ok_batch (exchanges st))))"

definition posts_shape_inv :: "'w posts_state \<Rightarrow> bool" where
  "posts_shape_inv st \<longleftrightarrow>
     p_per_page st = 20 \<and>
     p_page_num st = int (length (p_exchanges st)) + 1 \<and>
     (\<forall>i < length (p_exchanges st).
        ex_page (p_exchanges st ! i) = int i + 1 \<and> ex_size (p_exchanges st ! i) = 20 \<and>
        is_page (ex_resp (p_exchanges st ! i)))"

definition posts_shape_final :: "'w posts_state \<Rightarrow> bool" where
  "posts_shape_final st \<longleftrightarrow>
     p_exchanges st \<noteq> [] \<and>
     (\<forall>i < length (p_exchanges st).
        ex_page (p_exchanges st ! i) = int i + 1 \<and> ex_size (p_exchanges st ! i) = 20 \<and>
        (is_page (ex_resp (p_exchanges st ! i)) \<longleftrightarrow> Suc i < length (p_exchanges st)))"

section \<open>Mock endpoints\<close>

definition mk_item :: "int option \<Rightarrow> media_item" where
  "mk_item i = \<lparr>m_id = i, m_source_url = None, m_date = None\<rparr>"

definition mk_post :: "int \<Rightarrow> post" where
  "mk_post i = \<lparr>p_id = Some i, p_date = None, p_content = []\<rparr>"

text \<open>
  A media endpoint that rejects page sizes above 25 and then serves two pages in which
  an id comes twice and two items have no id.
\<close>

definition demo_media_api :: "(unit, media_item) endpoint" where
  "demo_media_api w page n =
     (if n > 25 then (Http 400 [], w)
      else if page = 1 then (Http 200 [mk_item (Some 1), mk_item None, mk_item (Some 1)], w)
      else if page = 2 then (Http 200 [mk_item None, mk_item (Some 2)], w)
      else (Http 200 [], w))"

definition demo_media_first :: "unit media_state" where
  "demo_media_first =
     \<lparr>world = (), page_num = 1, per_page = 50, all_seen_ids = {}, all_items = [],
      exchanges = [(1, 100, Http 400 [])]\<rparr>"

definition demo_media_result :: "unit media_state" where
  "demo_media_result =
     \<lparr>world = (), page_num = 3, per_page = 25,
      all_seen_ids = {Some 2, None, Some 1},
      all_items = [mk_item (Some 1), mk_item None, mk_item (Some 2)],
      exchanges =
        [(1, 100, Http 400 []), (1, 50, Http 400 []),
         (1, 25, Http 200 [mk_item (Some 1), mk_item None, mk_item (Some 1)]),
         (2, 25, Http 200 [mk_item None, mk_item (Some 2)]),
         (3, 25, Http 200 [])]\<rparr>"

text \<open>A media endpoint that rejects every request.\<close>

definition rejecting_media_api :: "(unit, media_item) endpoint" where
  "rejecting_media_api w page n = (Http 400 [], w)"

definition rejecting_media_result :: "unit media_state" where
  "rejecting_media_result =
     \<lparr>world = (), page_num = 1, per_page = 1, all_seen_ids = {}, all_items = [],
      exchanges =
        [(1, 100, Http 400 []), (1, 50, Http 400 []), (1, 25, Http 400 []),
         (1, 12, Http 400 []), (1, 6, Http 400 []), (1, 3, Http 400 []),
         (1, 1, Http 400 [])]\<rparr>"

text \<open>A media endpoint that ignores the page number and serves the same two items.\<close>

definition repeating_media_api :: "(unit, media_item) endpoint" where
  "repeating_media_api w page n = (Http 200 [mk_item (Some 1), mk_item (Some 2)], w)"

definition repeating_media_mid :: "unit media_state" where
  "repeating_media_mid =
     \<lparr>world = (), page_num = 2, per_page = 100, all_seen_ids = {Some 1, Some 2},
      all_items = [mk_item (Some 1), mk_item (Some 2)],
      exchanges = [(1, 100, Http 200 [mk_item (Some 1), mk_item (Some 2)])]\<rparr>"

definition repeating_media_result :: "unit media_state" where
  "repeating_media_result =
     \<lparr>world = (), page_num = 2, per_page = 100, all_seen_ids = {Some 1, Some 2},
      all_items = [mk_item (Some 1), mk_item (Some 2)],
      exchanges = [(1, 100, Http 200 [mk_item (Some 1), mk_item (Some 2)]),
                   (2, 100, Http 200 [mk_item (Some 1), mk_item (Some 2)])]\<rparr>"

text \<open>A media endpoint without end: page \<open>k\<close> is the one item with id \<open>k\<close>, for every \<open>k\<close>.\<close>

definition endless_media_api :: "(unit, media_item) endpoint" where
  "endless_media_api w page n = (Http 200 [mk_item (Some page)], w)"

text \<open>A posts endpoint whose second page repeats the post of the first.\<close>

definition drifting_posts_api :: "(unit, post) endpoint" where
  "drifting_posts_api w page n =
     (if page \<le> 2 then (Http 200 [mk_post 7], w) else (Http 200 [], w))"

definition drifting_posts_result :: "unit posts_state" where
  "drifting_posts_result =
     \<lparr>p_world = (), p_page_num = 3, p_per_page = 20,
      all_posts = [mk_post 7, mk_post 7],
      p_exchanges =
        [(1, 20, Http 200 [mk_post 7]), (2, 20, Http 200 [mk_post 7]), (3, 20, Http 200 [])]\<rparr>"

text \<open>
  A posts endpoint that rejects page sizes above 10 and serves one post per page of a
  size it accepts.
\<close>

definition picky_posts_api :: "(unit, post) endpoint" where
  "picky_posts_api w page n =
     (if n > 10 then (Http 400 [], w)
      else if page = 1 then (Http 200 [mk_post 1], w)
      else (Http 200 [], w))"

definition picky_posts_result :: "unit posts_state" where
  "picky_posts_result =
     \<lparr>p_world = (), p_page_num = 1, p_per_page = 20, all_posts = [],
      p_exchanges = [(1, 20, Http 400 [])]\<rparr>"

text \<open>A media endpoint with no items, and one with a single page of two items.\<close>

definition empty_media_api :: "(unit, media_item) endpoint" where
  "empty_media_api w page n = (Http 200 [], w)"

definition small_media_api :: "(unit, media_item) endpoint" where
  "small_media_api w page n =
     (if page = 1
      then (Http 200 [\<lparr>m_id = Some 10, m_source_url = Some ''https://site.test/a.png'',
                        m_date = Some ''2024-01-15T10:12:30''\<rparr>,
                      \<lparr>m_id = Some 11, m_source_url = None, m_date = None\<rparr>], w)
      else (Http 200 [], w))"

text \<open>A posts endpoint with one post, and a parser that finds three images in its body.\<close>

definition demo_post :: post where
  "demo_post = \<lparr>p_id = Some 5, p_date = Some ''2024-03-01T09:00:00'', p_content = ''<p>...</p>''\<rparr>"

definition one_post_api :: "(unit, post) endpoint" where
  "one_post_api w page n = (if page = 1 then (Http 200 [demo_post], w) else (Http 200 [], w))"

definition demo_find_all_img :: "string \<Rightarrow> string list" where
  "demo_find_all_img content_html =
     (if content_html = [] then []
      else [''//img.example/x.png'', ''/media/x.png'', ''https://cdn.test/x.png''])"

definition empty_media_result :: "unit media_state" where
  "empty_media_result =
     \<lparr>world = (), page_num = 1, per_page = 100, all_seen_ids = {}, all_items = [],
      exchanges = [(1, 100, Http 200 [])]\<rparr>"

definition small_media_result :: "unit media_state" where
  "small_media_result =
     \<lparr>world = (), page_num = 2, per_page = 100, all_seen_ids = {Some 11, Some 10},
      all_items = [\<lparr>m_id = Some 10, m_source_url = Some ''https://site.test/a.png'',
                     m_date = Some ''2024-01-15T10:12:30''\<rparr>,
                   \<lparr>m_id = Some 11, m_source_url = None, m_date = None\<rparr>],
      exchanges =
        [(1, 100, Http 200 [\<lparr>m_id = Some 10, m_source_url = Some ''https://site.test/a.png'',
                              m_date = Some ''2024-01-15T10:12:30''\<rparr>,
                            \<lparr>m_id = Some 11, m_source_url = None, m_date = None\<rparr>]),
         (2, 100, Http 200 [])]\<rparr>"



section \<open>Laws of the loop\<close>

lemma while_true_Break: "body st = Break st' \<Longrightarrow> while_true body st = Some st'"
  by (subst while_true.simps) simp

lemma while_true_Continue: "body st = Continue st' \<Longrightarrow> while_true body st = while_true body st'"
  by (subst while_true.simps) simp

text \<open>An invariant of the body holds of the state the loop ends in.\<close>

lemma while_true_invariant:
  assumes run: "while_true body st = Some r"
    and init: "I st"
    and step: "\<And>s s'. I s \<Longrightarrow> body s = Continue s' \<Longrightarrow> I s'"
    and final: "\<And>s s'. I s \<Longrightarrow> body s = Break s' \<Longrightarrow> Q s'"
  shows "Q r"
proof -
  have "b = body \<longrightarrow> I s \<longrightarrow> Q y" if "while_true b s = Some y" for b s y
  proof (rule while_true.raw_induct [where P = "\<lambda>b s y. b = body \<longrightarrow> I s \<longrightarrow> Q y", OF _ that])
    fix loop :: "('a \<Rightarrow> 'a flow) \<Rightarrow> 'a \<Rightarrow> 'a option" and b s y
    assume IH: "\<And>b s y. loop b s = Some y \<Longrightarrow> b = body \<longrightarrow> I s \<longrightarrow> Q y"
      and unfold: "(case b s of Continue s' \<Rightarrow> loop b s' | Break s' \<Rightarrow> Some s') = Some y"
    show "b = body \<longrightarrow> I s \<longrightarrow> Q y"
    proof (intro impI)
      assume b: "b = body" and inv: "I s"
      show "Q y"
      proof (cases "body s")
        case (Continue s')
        with unfold b have "loop body s' = Some y" by simp
        with IH [of body s' y] step [OF inv Continue] show ?thesis by simp
      next
        case (Break s')
        with unfold b have "y = s'" by simp
        with final [OF inv Break] show ?thesis by simp
      qed
    qed
  qed
  with run init show ?thesis by blast
qed

text \<open>The loop ends when every iteration that continues decreases a well-founded order.\<close>

lemma while_true_terminates:
  assumes wf: "wf R"
    and init: "I st"
    and step: "\<And>s s'. I s \<Longrightarrow> body s = Continue s' \<Longrightarrow> I s' \<and> (s', s) \<in> R"
  shows "\<exists>r. while_true body st = Some r"
  using wf init
proof (induction st rule: wf_induct_rule)
  case (less s)
  show ?case
  proof (cases "body s")
    case (Continue s')
    from step [OF less.prems Continue] less.IH [of s']
    have "\<exists>r. while_true body s' = Some r" by blast
    with while_true_Continue [of body s s'] Continue show ?thesis by simp
  next
    case (Break s')
    with while_true_Break [of body s s'] show ?thesis by blast
  qed
qed

text \<open>The loop never ends when no iteration breaks.\<close>

lemma while_true_diverges:
  assumes init: "I st"
    and step: "\<And>s. I s \<Longrightarrow> \<exists>s'. body s = Continue s' \<and> I s'"
  shows "while_true body st = None"
proof (rule ccontr)
  assume "while_true body st \<noteq> None"
  then obtain r where run: "while_true body st = Some r" by blast
  have "False"
  proof (rule while_true_invariant [where I = I and Q = "\<lambda>_. False", OF run init])
    fix s s' assume "I s" "body s = Continue s'"
    with step [of s] show "I s'" by auto
  next
    fix s s' assume "I s" "body s = Break s'"
    with step [of s] show False by auto
  qed
  then show False .
qed

section \<open>The media paginator: one iteration\<close>


lemma scan_items_spec:
  "scan_items data (items, seen, new) = (items', seen', new') \<Longrightarrow>
     \<exists>em. items' = items @ em \<and> new' = new @ map m_id em
        \<and> distinct (map m_id em) \<and> m_id ` set em \<inter> seen = {}
        \<and> seen' = seen \<union> m_id ` set em \<and> seen' = seen \<union> m_id ` set data \<and> set em \<subseteq> set data"
proof (induction data arbitrary: items seen new)
  case Nil
  then show ?case by simp
next
  case (Cons item data)
  show ?case
  proof (cases "m_id item \<in> seen")
    case True
    with Cons.prems have "scan_items data (items, seen, new) = (items', seen', new')" by (simp add: Let_def)
    from Cons.IH [OF this] True show ?thesis by auto
  next
    case False
    with Cons.prems
    have "scan_items data (items @ [item], insert (m_id item) seen, new @ [m_id item]) = (items', seen', new')"
      by (simp add: Let_def)
    from Cons.IH [OF this] obtain em where em: "items' = (items @ [item]) @ em" "new' = (new @ [m_id item]) @ map m_id em"
       "distinct (map m_id em)" "m_id ` set em \<inter> insert (m_id item) seen = {}"
       "seen' = insert (m_id item) seen \<union> m_id ` set em" "seen' = insert (m_id item) seen \<union> m_id ` set data"
       "set em \<subseteq> set data" by blast
    show ?thesis
      apply (rule exI [of _ "item # em"]) using em False by auto
  qed
qed

lemma media_iteration_cases:
  assumes "MEDIA_API (world st) (page_num st) (per_page st) = (r, w')"
  defines "st1 \<equiv> st\<lparr>world := w', exchanges := exchanges st @ [(page_num st, per_page st, r)]\<rparr>"
  shows "media_iteration MEDIA_API st =
     (case r of
           Transport_error \<Rightarrow> Break st1
         | Http status_code data \<Rightarrow>
             if status_code = 400 then
               (if per_page st > 1
                then Continue (st1\<lparr>per_page := per_page st div 2\<rparr>)
                else Break st1)
             else if status_code = 200 then
               (if data = [] then Break st1
                else
                  (case scan_items data (all_items st, all_seen_ids st, []) of
                     (items, seen, new_page_ids) \<Rightarrow>
                       if new_page_ids = [] then Break (st1\<lparr>all_items := items, all_seen_ids := seen\<rparr>)
                       else Continue (st1\<lparr>all_items := items, all_seen_ids := seen, page_num := page_num st + 1\<rparr>)))
             else Break st1)"
  using assms(1) unfolding st1_def
  by (auto simp: media_iteration_def Let_def MIN_PER_PAGE_def max_def split: response.splits prod.splits)

section \<open>Duplicate detection\<close>


lemma ids_inv_step:
  assumes inv: "ids_inv s"
    and it: "media_iteration MEDIA_API s = Continue s' \<or> media_iteration MEDIA_API s = Break s'"
  shows "ids_inv s'"
proof -
  obtain r w' where call: "MEDIA_API (world s) (page_num s) (per_page s) = (r, w')"
    by (cases "MEDIA_API (world s) (page_num s) (per_page s)")
  note unfold = media_iteration_cases [where MEDIA_API = MEDIA_API and st = s, OF call]
  show ?thesis
  proof (cases r)
    case Transport_error
    with it inv show ?thesis
      by (auto simp: unfold ids_inv_def)
  next
    case (Http code data)
    obtain items seen new where sc: "scan_items data (all_items s, all_seen_ids s, []) = (items, seen, new)"
      by (cases "scan_items data (all_items s, all_seen_ids s, [])")
    from scan_items_spec [OF sc] obtain em where em: "items = all_items s @ em"
      "distinct (map m_id em)" "m_id ` set em \<inter> all_seen_ids s = {}"
      "seen = all_seen_ids s \<union> m_id ` set em" by blast
    from inv have d: "distinct (map m_id (all_items s))" and e: "m_id ` set (all_items s) = all_seen_ids s"
      by (simp_all add: ids_inv_def)
    from em(3) e have "set (map m_id (all_items s)) \<inter> set (map m_id em) = {}"
      by (simp add: Int_commute)
    with d em(1,2) have "distinct (map m_id items)" by simp
    moreover from em(1,4) e have "m_id ` set items = seen" by (simp add: image_Un)
    ultimately have "distinct (map m_id items) \<and> m_id ` set items = seen" ..
    with it inv Http sc show ?thesis
      by (auto simp: unfold ids_inv_def split: if_splits)
  qed
qed

lemma media_ids_distinct:
  assumes "fetch_all_media_items MEDIA_API w = Some r"
  shows "ids_inv r"
proof (rule while_true_invariant [where I = ids_inv and Q = ids_inv and body = "media_iteration MEDIA_API"])
  show "while_true (media_iteration MEDIA_API) (media_start w) = Some r"
    using assms by (simp add: fetch_all_media_items_def)
  show "ids_inv (media_start w)" by (simp add: ids_inv_def media_start_def)
qed (blast intro: ids_inv_step)+


lemma posts_iteration_cases:
  assumes "POSTS_API (p_world st) (p_page_num st) (p_per_page st) = (resp, w')"
  defines "st1 \<equiv> st\<lparr>p_world := w',
                     p_exchanges := p_exchanges st @ [(p_page_num st, p_per_page st, resp)]\<rparr>"
  shows "posts_iteration POSTS_API st =
     (case resp of
           Transport_error \<Rightarrow> Break st1
         | Http status_code data \<Rightarrow>
             if status_code = 200 \<and> data \<noteq> []
             then Continue (st1\<lparr>all_posts := all_posts st @ data, p_page_num := p_page_num st + 1\<rparr>)
             else Break st1)"
  using assms(1) unfolding st1_def
  by (auto simp: posts_iteration_def Let_def split: response.splits prod.splits)

lemma posts_inv_step:
  assumes inv: "posts_inv s"
    and it: "posts_iteration POSTS_API s = Continue s' \<or> posts_iteration POSTS_API s = Break s'"
  shows "posts_inv s'"
proof -
  obtain r w' where call: "POSTS_API (p_world s) (p_page_num s) (p_per_page s) = (r, w')"
    by (cases "POSTS_API (p_world s) (p_page_num s) (p_per_page s)")
  note unfold = posts_iteration_cases [where POSTS_API = POSTS_API and st = s, OF call]
  from it inv show ?thesis
    by (cases r) (auto simp: unfold posts_inv_def split: if_splits)
qed

lemma posts_keep_every_item:
  assumes "fetch_all_posts POSTS_API w = Some r"
  shows "posts_inv r"
proof (rule while_true_invariant [where I = posts_inv and Q = posts_inv and body = "posts_iteration POSTS_API"])
  show "while_true (posts_iteration POSTS_API) (posts_start w) = Some r"
    using assms by (simp add: fetch_all_posts_def)
  show "posts_inv (posts_start w)" by (simp add: posts_inv_def posts_start_def)
qed (blast intro: posts_inv_step)+

text \<open>
  Claim C1, as amended.  One run of \<^verbatim>\<open>fetch_all_media_items\<close> never returns two items
  with the same id, and the ids of the items it returns are exactly the seen ids.  In the
  scan of one page, the items appended are those whose id was not among the seen ids when
  the page arrived (and not earlier in the page), and the id of each is added to the seen
  ids.  \<^verbatim>\<open>fetch_all_posts\<close> detects no duplicates: it returns every item of every page it
  received, in order.
\<close>

theorem media_ids_emitted_once:
  "(fetch_all_media_items MEDIA_API w = Some r \<longrightarrow>
      distinct (map m_id (all_items r)) \<and> m_id ` set (all_items r) = all_seen_ids r) \<and>
   (scan_items data (items, seen, []) = (items', seen', new_page_ids) \<longrightarrow>
      (\<exists>emitted. items' = items @ emitted \<and> new_page_ids = map m_id emitted \<and>
         distinct (map m_id emitted) \<and> m_id ` set emitted \<inter> seen = {} \<and>
         seen' = seen \<union> m_id ` set emitted)) \<and>
   (fetch_all_posts POSTS_API w' = Some r' \<longrightarrow>
      all_posts r' = concat (map ok_batch (p_exchanges r')))"
proof (intro conjI impI)
  assume "fetch_all_media_items MEDIA_API w = Some r"
  from media_ids_distinct [OF this]
  show "distinct (map m_id (all_items r))" and "m_id ` set (all_items r) = all_seen_ids r"
    by (simp_all add: ids_inv_def)
next
  assume "scan_items data (items, seen, []) = (items', seen', new_page_ids)"
  from scan_items_spec [OF this]
  show "\<exists>emitted. items' = items @ emitted \<and> new_page_ids = map m_id emitted \<and>
         distinct (map m_id emitted) \<and> m_id ` set emitted \<inter> seen = {} \<and>
         seen' = seen \<union> m_id ` set emitted"
    by auto
next
  assume "fetch_all_posts POSTS_API w' = Some r'"
  from posts_keep_every_item [OF this] show "all_posts r' = concat (map ok_batch (p_exchanges r'))"
    by (simp add: posts_inv_def)
qed

text \<open>
  The three hypotheses hold at the mock endpoints: the media endpoint repeats id 1 within
  a page and the missing id across pages, and each is returned once.
\<close>

theorem media_ids_emitted_once_witness:
  "fetch_all_media_items demo_media_api () = Some demo_media_result \<and>
   distinct (map m_id (all_items demo_media_result)) \<and>
   m_id ` set (all_items demo_media_result) = all_seen_ids demo_media_result \<and>
   scan_items [mk_item (Some 1), mk_item None, mk_item (Some 1)] ([], {}, []) =
     ([mk_item (Some 1), mk_item None], {None, Some 1}, [Some 1, None]) \<and>
   fetch_all_posts drifting_posts_api () = Some drifting_posts_result \<and>
   all_posts drifting_posts_result = concat (map ok_batch (p_exchanges drifting_posts_result))"
proof -
  have m: "fetch_all_media_items demo_media_api () = Some demo_media_result"
    by code_simp
  have s: "scan_items [mk_item (Some 1), mk_item None, mk_item (Some 1)] ([], {}, []) =
     ([mk_item (Some 1), mk_item None], {None, Some 1}, [Some 1, None])"
    by (simp add: mk_item_def Let_def insert_commute)
  have p: "fetch_all_posts drifting_posts_api () = Some drifting_posts_result"
    by code_simp
  from m s p
    media_ids_emitted_once [of demo_media_api "()" demo_media_result
      "[mk_item (Some 1), mk_item None, mk_item (Some 1)]" "[]" "{}"
      "[mk_item (Some 1), mk_item None]" "{None, Some 1}" "[Some 1, None]"
      drifting_posts_api "()" drifting_posts_result]
  show ?thesis by blast
qed

text \<open>
  Claim C1 as stated fails for the posts: the endpoint serves the post with id 7 on page 1
  and again on page 2, and \<^verbatim>\<open>fetch_all_posts\<close> returns it twice.
\<close>

theorem posts_emit_duplicates:
  "map_option (distinct \<circ> map p_id \<circ> all_posts) (fetch_all_posts drifting_posts_api ()) = Some False"
  by code_simp

section \<open>Shrinking the page size: proofs\<close>

lemma successively_snoc:
  "successively P (xs @ [x]) \<longleftrightarrow> successively P xs \<and> (xs \<noteq> [] \<longrightarrow> P (last xs) x)"
  by (auto simp: successively_append_iff)

lemma shrink_inv_snoc:
  assumes inv: "shrink_inv s"
  shows "(\<forall>e \<in> set (exchanges s @ [(page_num s, per_page s, r)]). 1 \<le> ex_size e) \<and>
     successively (\<lambda>e e'. follows e (ex_page e') (ex_size e'))
       (exchanges s @ [(page_num s, per_page s, r)]) \<and>
     ex_page (hd (exchanges s @ [(page_num s, per_page s, r)])) = 1 \<and>
     ex_size (hd (exchanges s @ [(page_num s, per_page s, r)])) = INITIAL_PER_PAGE"
  using inv by (auto simp: shrink_inv_def successively_snoc hd_append split: if_splits)

lemma shrink_inv_Continue:
  assumes inv: "shrink_inv s" and it: "media_iteration MEDIA_API s = Continue s'"
  shows "shrink_inv s'"
proof -
  obtain r w' where call: "MEDIA_API (world s) (page_num s) (per_page s) = (r, w')"
    by (cases "MEDIA_API (world s) (page_num s) (per_page s)")
  note unfold = media_iteration_cases [where MEDIA_API = MEDIA_API and st = s, OF call]
  let ?e = "(page_num s, per_page s, r)"
  from inv have pos: "1 \<le> per_page s" by (simp add: shrink_inv_def)
  have ex: "exchanges s' = exchanges s @ [?e]"
  proof (cases r)
    case Transport_error
    with it show ?thesis by (simp add: unfold)
  next
    case (Http code data)
    obtain items seen new where "scan_items data (all_items s, all_seen_ids s, []) = (items, seen, new)"
      by (cases "scan_items data (all_items s, all_seen_ids s, [])")
    with it Http show ?thesis by (auto simp: unfold split: if_splits)
  qed
  have next_request: "follows ?e (page_num s') (per_page s') \<and> 1 \<le> per_page s'"
  proof (cases r)
    case Transport_error
    with it show ?thesis by (simp add: unfold)
  next
    case (Http code data)
    obtain items seen new where "scan_items data (all_items s, all_seen_ids s, []) = (items, seen, new)"
      by (cases "scan_items data (all_items s, all_seen_ids s, [])")
    with it Http pos show ?thesis
      by (auto simp: unfold follows_def split: if_splits)
  qed
  from ex next_request have "exchanges s' \<noteq> []" "last (exchanges s') = ?e" by simp_all
  with shrink_inv_snoc [OF inv, of r] ex next_request show ?thesis
    by (simp add: shrink_inv_def)
qed

lemma shrink_inv_Break:
  assumes inv: "shrink_inv s" and it: "media_iteration MEDIA_API s = Break s'"
  shows "shrink_final s'"
proof -
  obtain r w' where call: "MEDIA_API (world s) (page_num s) (per_page s) = (r, w')"
    by (cases "MEDIA_API (world s) (page_num s) (per_page s)")
  note unfold = media_iteration_cases [where MEDIA_API = MEDIA_API and st = s, OF call]
  let ?e = "(page_num s, per_page s, r)"
  from inv have pos: "1 \<le> per_page s" by (simp add: shrink_inv_def)
  have "exchanges s' = exchanges s @ [?e] \<and> (is_400 r \<longrightarrow> per_page s = 1)"
  proof (cases r)
    case Transport_error
    with it show ?thesis by (auto simp: unfold)
  next
    case (Http code data)
    obtain items seen new where "scan_items data (all_items s, all_seen_ids s, []) = (items, seen, new)"
      by (cases "scan_items data (all_items s, all_seen_ids s, [])")
    with it Http pos show ?thesis by (auto simp: unfold split: if_splits)
  qed
  with shrink_inv_snoc [OF inv, of r] show ?thesis
    by (simp add: shrink_final_def)
qed

lemma media_shrink_final:
  assumes "fetch_all_media_items MEDIA_API w = Some r"
  shows "shrink_final r"
proof (rule while_true_invariant [where I = shrink_inv and Q = shrink_final and body = "media_iteration MEDIA_API"])
  show "while_true (media_iteration MEDIA_API) (media_start w) = Some r"
    using assms by (simp add: fetch_all_media_items_def)
  show "shrink_inv (media_start w)"
    by (simp add: shrink_inv_def media_start_def INITIAL_PER_PAGE_def)
qed (blast intro: shrink_inv_Continue shrink_inv_Break)+

text \<open>
  Claim C2.  In the log of a run of \<^verbatim>\<open>fetch_all_media_items\<close>: the first request is for
  page 1 with page size 100; no request has a page size below 1; the page sizes never
  grow from one request to the next; a 400 at a page size above 1 is followed by a request
  for the same page number with the page size halved (floor division); a 400 at page size
  1 is the last request; and after a response that is not a 400 the page size stays as it
  is, so that every shrink is a halving after a 400.
\<close>

theorem media_page_size_shrinks:
  assumes run: "fetch_all_media_items MEDIA_API w = Some r"
  shows "exchanges r \<noteq> [] \<and>
         ex_page (exchanges r ! 0) = 1 \<and> ex_size (exchanges r ! 0) = 100 \<and>
         (\<forall>i < length (exchanges r). 1 \<le> ex_size (exchanges r ! i)) \<and>
         (\<forall>i. Suc i < length (exchanges r) \<longrightarrow>
              ex_size (exchanges r ! Suc i) \<le> ex_size (exchanges r ! i)) \<and>
         (\<forall>i < length (exchanges r).
              is_400 (ex_resp (exchanges r ! i)) \<and> 1 < ex_size (exchanges r ! i) \<longrightarrow>
                Suc i < length (exchanges r) \<and>
                ex_size (exchanges r ! Suc i) = ex_size (exchanges r ! i) div 2 \<and>
                ex_page (exchanges r ! Suc i) = ex_page (exchanges r ! i)) \<and>
         (\<forall>i < length (exchanges r).
              is_400 (ex_resp (exchanges r ! i)) \<and> ex_size (exchanges r ! i) = 1 \<longrightarrow>
                Suc i = length (exchanges r)) \<and>
         (\<forall>i. Suc i < length (exchanges r) \<and> \<not> is_400 (ex_resp (exchanges r ! i)) \<longrightarrow>
              ex_size (exchanges r ! Suc i) = ex_size (exchanges r ! i) \<and>
              ex_page (exchanges r ! Suc i) = ex_page (exchanges r ! i) + 1)"
proof -
  let ?t = "exchanges r"
  from media_shrink_final [OF run]
  have pos: "\<forall>e \<in> set ?t. 1 \<le> ex_size e"
    and succ: "successively (\<lambda>e e'. follows e (ex_page e') (ex_size e')) ?t"
    and ne: "?t \<noteq> []"
    and first: "ex_page (hd ?t) = 1" "ex_size (hd ?t) = INITIAL_PER_PAGE"
    and fin: "is_400 (ex_resp (last ?t)) \<longrightarrow> ex_size (last ?t) = 1"
    by (simp_all add: shrink_final_def)
  have adj: "follows (?t ! i) (ex_page (?t ! Suc i)) (ex_size (?t ! Suc i))" if "Suc i < length ?t" for i
    using succ that by (simp add: successively_conv_nth)
  have a: "\<forall>i < length ?t. 1 \<le> ex_size (?t ! i)"
    using pos by simp
  have b: "\<forall>i. Suc i < length ?t \<longrightarrow> ex_size (?t ! Suc i) \<le> ex_size (?t ! i)"
  proof (intro allI impI)
    fix i assume i: "Suc i < length ?t"
    with a have "1 \<le> ex_size (?t ! i)" by simp
    with adj [OF i] show "ex_size (?t ! Suc i) \<le> ex_size (?t ! i)"
      by (auto simp: follows_def split: if_splits)
  qed
  have c: "\<forall>i < length ?t. is_400 (ex_resp (?t ! i)) \<and> 1 < ex_size (?t ! i) \<longrightarrow>
                Suc i < length ?t \<and> ex_size (?t ! Suc i) = ex_size (?t ! i) div 2 \<and>
                ex_page (?t ! Suc i) = ex_page (?t ! i)"
  proof (intro allI impI)
    fix i assume i: "i < length ?t" and h: "is_400 (ex_resp (?t ! i)) \<and> 1 < ex_size (?t ! i)"
    have "Suc i < length ?t"
    proof (rule ccontr)
      assume "\<not> Suc i < length ?t"
      with i have len: "Suc i = length ?t" by simp
      from last_conv_nth [OF ne] len have "last ?t = ?t ! i" by (metis diff_Suc_1)
      with fin h show False by simp
    qed
    with adj [OF this] h
    show "Suc i < length ?t \<and> ex_size (?t ! Suc i) = ex_size (?t ! i) div 2 \<and>
                ex_page (?t ! Suc i) = ex_page (?t ! i)"
      by (simp add: follows_def)
  qed
  have d: "\<forall>i < length ?t. is_400 (ex_resp (?t ! i)) \<and> ex_size (?t ! i) = 1 \<longrightarrow> Suc i = length ?t"
  proof (intro allI impI)
    fix i assume i: "i < length ?t" and h: "is_400 (ex_resp (?t ! i)) \<and> ex_size (?t ! i) = 1"
    show "Suc i = length ?t"
    proof (rule ccontr)
      assume "Suc i \<noteq> length ?t"
      with i have "Suc i < length ?t" by simp
      from adj [OF this] h show False by (simp add: follows_def)
    qed
  qed
  have e: "\<forall>i. Suc i < length ?t \<and> \<not> is_400 (ex_resp (?t ! i)) \<longrightarrow>
              ex_size (?t ! Suc i) = ex_size (?t ! i) \<and> ex_page (?t ! Suc i) = ex_page (?t ! i) + 1"
    using adj by (simp add: follows_def)
  from ne first have f: "ex_page (?t ! 0) = 1" "ex_size (?t ! 0) = 100"
    by (simp_all add: hd_conv_nth INITIAL_PER_PAGE_def)
  from ne f a b c d e show ?thesis by blast
qed

text \<open>
  The endpoint that rejects every request is asked for page 1 with sizes 100, 50, 25, 12,
  6, 3 and 1, and then no more.
\<close>

theorem media_page_size_shrinks_witness:
  "fetch_all_media_items rejecting_media_api () = Some rejecting_media_result \<and>
   map ex_size (exchanges rejecting_media_result) = [100, 50, 25, 12, 6, 3, 1] \<and>
   is_400 (ex_resp (exchanges rejecting_media_result ! 3)) \<and>
   1 < ex_size (exchanges rejecting_media_result ! 3) \<and>
   ex_size (exchanges rejecting_media_result ! Suc 3) = ex_size (exchanges rejecting_media_result ! 3) div 2 \<and>
   ex_page (exchanges rejecting_media_result ! Suc 3) = ex_page (exchanges rejecting_media_result ! 3) \<and>
   is_400 (ex_resp (exchanges rejecting_media_result ! 6)) \<and>
   ex_size (exchanges rejecting_media_result ! 6) = 1 \<and>
   Suc 6 = length (exchanges rejecting_media_result)"
proof -
  have run: "fetch_all_media_items rejecting_media_api () = Some rejecting_media_result"
    by code_simp
  have hyps: "(3::nat) < length (exchanges rejecting_media_result)"
    "is_400 (ex_resp (exchanges rejecting_media_result ! 3))"
    "1 < ex_size (exchanges rejecting_media_result ! 3)"
    "(6::nat) < length (exchanges rejecting_media_result)"
    "is_400 (ex_resp (exchanges rejecting_media_result ! 6))"
    "ex_size (exchanges rejecting_media_result ! 6) = 1"
    "map ex_size (exchanges rejecting_media_result) = [100, 50, 25, 12, 6, 3, 1]"
    by (simp_all add: rejecting_media_result_def)
  from media_page_size_shrinks [OF run] hyps run show ?thesis
    by blast
qed

section \<open>Stagnation: proofs\<close>

lemma scan_items_all_seen:
  "m_id ` set data \<subseteq> seen \<Longrightarrow> scan_items data (items, seen, new) = (items, seen, new)"
  by (induction data) simp_all

lemma received_ids_snoc:
  "received_ids (t @ [e]) = received_ids t \<union> m_id ` set (ok_batch e)"
  by (simp add: received_ids_def image_Un)

lemma stagnant_snoc_old: "i < length t \<Longrightarrow> stagnant (t @ [e]) i = stagnant t i"
  by (simp add: stagnant_def nth_append)

lemma stagnant_snoc_new:
  "stagnant (t @ [e]) (length t) \<longleftrightarrow>
     is_page (ex_resp e) \<and> m_id ` set (ok_batch e) \<subseteq> received_ids t"
  by (simp add: stagnant_def)

lemma not_stagnant_snoc:
  assumes "\<forall>i < length t. \<not> stagnant t i"
    and "\<not> (is_page (ex_resp e) \<and> m_id ` set (ok_batch e) \<subseteq> received_ids t)"
  shows "\<forall>i < length (t @ [e]). \<not> stagnant (t @ [e]) i"
proof (intro allI impI)
  fix i assume "i < length (t @ [e])"
  then consider "i < length t" | "i = length t" by fastforce
  then show "\<not> stagnant (t @ [e]) i"
    using assms by cases (simp_all add: stagnant_snoc_old stagnant_snoc_new)
qed

lemma stag_final_snoc:
  assumes "\<forall>i < length t. \<not> stagnant t i"
  shows "\<forall>i < length (t @ [e]). stagnant (t @ [e]) i \<longrightarrow> Suc i = length (t @ [e])"
proof (intro allI impI)
  fix i assume "i < length (t @ [e])" and s: "stagnant (t @ [e]) i"
  then consider "i < length t" | "i = length t" by fastforce
  then show "Suc i = length (t @ [e])"
    using assms s by cases (simp_all add: stagnant_snoc_old)
qed

lemma stag_inv_Continue:
  assumes inv: "stag_inv s" and it: "media_iteration MEDIA_API s = Continue s'"
  shows "stag_inv s'"
proof -
  obtain r w' where call: "MEDIA_API (world s) (page_num s) (per_page s) = (r, w')"
    by (cases "MEDIA_API (world s) (page_num s) (per_page s)")
  note unfold = media_iteration_cases [where MEDIA_API = MEDIA_API and st = s, OF call]
  let ?e = "(page_num s, per_page s, r)"
  from inv have seen: "all_seen_ids s = received_ids (exchanges s)"
    and old: "\<forall>i < length (exchanges s). \<not> stagnant (exchanges s) i"
    by (simp_all add: stag_inv_def)
  show ?thesis
  proof (cases r)
    case Transport_error
    with it show ?thesis by (simp add: unfold)
  next
    case (Http code data)
    show ?thesis
    proof (cases "code = 400")
      case True
      with Http have "\<not> (is_page (ex_resp ?e) \<and> m_id ` set (ok_batch ?e) \<subseteq> received_ids (exchanges s))"
        by simp
      from not_stagnant_snoc [OF old this] it Http True seen show ?thesis
        by (auto simp: unfold stag_inv_def received_ids_snoc split: if_splits)
    next
      case False
      obtain items seen' new where sc: "scan_items data (all_items s, all_seen_ids s, []) = (items, seen', new)"
        by (cases "scan_items data (all_items s, all_seen_ids s, [])")
      from it Http False sc have c200: "code = 200" and new: "new \<noteq> []"
        and s': "s' = s\<lparr>world := w', exchanges := exchanges s @ [?e], all_items := items,
                    all_seen_ids := seen', page_num := page_num s + 1\<rparr>"
        by (auto simp: unfold split: if_splits)
      from scan_items_spec [OF sc] obtain em where em: "new = map m_id em"
        "m_id ` set em \<inter> all_seen_ids s = {}" "seen' = all_seen_ids s \<union> m_id ` set data"
        "set em \<subseteq> set data" by auto
      from new em(1) obtain x where x: "x \<in> set em" by (cases em) auto
      with em(2,4) have "m_id x \<in> m_id ` set data" "m_id x \<notin> all_seen_ids s" by auto
      with Http c200 seen
      have "\<not> (is_page (ex_resp ?e) \<and> m_id ` set (ok_batch ?e) \<subseteq> received_ids (exchanges s))"
        by auto
      from not_stagnant_snoc [OF old this] s' em(3) seen Http c200 show ?thesis
        by (simp add: stag_inv_def received_ids_snoc)
    qed
  qed
qed

lemma stag_inv_Break:
  assumes inv: "stag_inv s" and it: "media_iteration MEDIA_API s = Break s'"
  shows "stag_final s'"
proof -
  obtain r w' where call: "MEDIA_API (world s) (page_num s) (per_page s) = (r, w')"
    by (cases "MEDIA_API (world s) (page_num s) (per_page s)")
  note unfold = media_iteration_cases [where MEDIA_API = MEDIA_API and st = s, OF call]
  let ?e = "(page_num s, per_page s, r)"
  from inv have old: "\<forall>i < length (exchanges s). \<not> stagnant (exchanges s) i"
    by (simp add: stag_inv_def)
  have "exchanges s' = exchanges s @ [?e]"
  proof (cases r)
    case Transport_error
    with it show ?thesis by (auto simp: unfold)
  next
    case (Http code data)
    obtain items seen' new where sc: "scan_items data (all_items s, all_seen_ids s, []) = (items, seen', new)"
      by (cases "scan_items data (all_items s, all_seen_ids s, [])")
    with it Http show ?thesis by (auto simp: unfold split: if_splits)
  qed
  with stag_final_snoc [OF old, of ?e] show ?thesis
    by (simp add: stag_final_def)
qed

lemma media_stag_final:
  assumes "fetch_all_media_items MEDIA_API w = Some r"
  shows "stag_final r"
proof (rule while_true_invariant [where I = stag_inv and Q = stag_final and body = "media_iteration MEDIA_API"])
  show "while_true (media_iteration MEDIA_API) (media_start w) = Some r"
    using assms by (simp add: fetch_all_media_items_def)
  show "stag_inv (media_start w)"
    by (simp add: stag_inv_def media_start_def received_ids_def)
qed (blast intro: stag_inv_Continue stag_inv_Break)+

lemma media_iteration_stagnant:
  assumes call: "MEDIA_API (world st) (page_num st) (per_page st) = (Http 200 data, w')"
    and "data \<noteq> []" and "m_id ` set data \<subseteq> all_seen_ids st"
  shows "media_iteration MEDIA_API st =
    Break (st\<lparr>world := w', exchanges := exchanges st @ [(page_num st, per_page st, Http 200 data)]\<rparr>)"
  using assms(2,3)
  by (simp add: media_iteration_cases [where MEDIA_API = MEDIA_API and st = st, OF call]
      scan_items_all_seen)

text \<open>
  Claim C5.  When the media endpoint answers 200 with a non-empty page whose ids are all
  among the seen ids, the loop ends in that iteration: the request for that page is the
  last entry of the log and the items collected are those collected before it.  In the
  log of a finished run, a non-empty page that brings no id not received before is the
  last exchange.
\<close>

theorem media_stops_on_stagnation:
  "(MEDIA_API (world st) (page_num st) (per_page st) = (Http 200 data, w') \<and> data \<noteq> [] \<and>
      m_id ` set data \<subseteq> all_seen_ids st \<longrightarrow>
      while_true (media_iteration MEDIA_API) st =
        Some (st\<lparr>world := w',
                 exchanges := exchanges st @ [(page_num st, per_page st, Http 200 data)]\<rparr>)) \<and>
   (fetch_all_media_items MEDIA_API w = Some r \<longrightarrow>
      (\<forall>i < length (exchanges r). stagnant (exchanges r) i \<longrightarrow> Suc i = length (exchanges r)))"
proof (intro conjI impI)
  assume h: "MEDIA_API (world st) (page_num st) (per_page st) = (Http 200 data, w') \<and> data \<noteq> [] \<and>
      m_id ` set data \<subseteq> all_seen_ids st"
  then have "media_iteration MEDIA_API st =
    Break (st\<lparr>world := w', exchanges := exchanges st @ [(page_num st, per_page st, Http 200 data)]\<rparr>)"
    by (simp add: media_iteration_stagnant)
  then show "while_true (media_iteration MEDIA_API) st =
        Some (st\<lparr>world := w',
                 exchanges := exchanges st @ [(page_num st, per_page st, Http 200 data)]\<rparr>)"
    by (rule while_true_Break [of "media_iteration MEDIA_API" st])
next
  assume "fetch_all_media_items MEDIA_API w = Some r"
  from media_stag_final [OF this]
  show "\<forall>i < length (exchanges r). stagnant (exchanges r) i \<longrightarrow> Suc i = length (exchanges r)"
    by (simp add: stag_final_def)
qed

text \<open>
  The endpoint that serves the same two items on every page: the second page is stagnant,
  and the run ends with it, having collected the two items of the first page.
\<close>

theorem media_stops_on_stagnation_witness:
  "repeating_media_api (world repeating_media_mid) (page_num repeating_media_mid)
      (per_page repeating_media_mid) = (Http 200 [mk_item (Some 1), mk_item (Some 2)], ()) \<and>
   m_id ` set [mk_item (Some 1), mk_item (Some 2)] \<subseteq> all_seen_ids repeating_media_mid \<and>
   while_true (media_iteration repeating_media_api) repeating_media_mid =
     Some repeating_media_result \<and>
   fetch_all_media_items repeating_media_api () = Some repeating_media_result \<and>
   stagnant (exchanges repeating_media_result) 1 \<and>
   Suc 1 = length (exchanges repeating_media_result)"
proof -
  have call: "repeating_media_api (world repeating_media_mid) (page_num repeating_media_mid)
      (per_page repeating_media_mid) = (Http 200 [mk_item (Some 1), mk_item (Some 2)], ())"
    by (simp add: repeating_media_api_def)
  have seen: "m_id ` set [mk_item (Some 1), mk_item (Some 2)] \<subseteq> all_seen_ids repeating_media_mid"
    by (simp add: repeating_media_mid_def mk_item_def)
  have upd: "repeating_media_mid\<lparr>world := (),
      exchanges := exchanges repeating_media_mid @
        [(page_num repeating_media_mid, per_page repeating_media_mid,
          Http 200 [mk_item (Some 1), mk_item (Some 2)])]\<rparr> = repeating_media_result"
    by (simp add: repeating_media_mid_def repeating_media_result_def)
  have run: "fetch_all_media_items repeating_media_api () = Some repeating_media_result"
    by code_simp
  have stag: "stagnant (exchanges repeating_media_result) 1"
    by (simp add: stagnant_def repeating_media_result_def received_ids_def mk_item_def)
  have len: "(1::nat) < length (exchanges repeating_media_result)"
    by (simp add: repeating_media_result_def)
  from media_stops_on_stagnation [of repeating_media_api repeating_media_mid
      "[mk_item (Some 1), mk_item (Some 2)]" "()" "()" repeating_media_result]
    call seen upd run stag len
  show ?thesis by auto
qed

section \<open>Items without an id: proofs\<close>

lemma scan_items_id_less:
  "scan_items data (items, seen, new) = (items', seen', new') \<Longrightarrow>
     filter id_less items' =
       filter id_less items @ (if None \<in> seen then [] else take 1 (filter id_less data)) \<and>
     (None \<in> seen' \<longleftrightarrow> None \<in> seen \<or> filter id_less data \<noteq> [])"
proof (induction data arbitrary: items seen new)
  case Nil
  then show ?case by simp
next
  case (Cons item data)
  show ?case
  proof (cases "m_id item \<in> seen")
    case True
    with Cons.prems have "scan_items data (items, seen, new) = (items', seen', new')"
      by (simp add: Let_def)
    from Cons.IH [OF this] True show ?thesis by (auto simp: id_less_def)
  next
    case False
    with Cons.prems
    have "scan_items data (items @ [item], insert (m_id item) seen, new @ [m_id item]) = (items', seen', new')"
      by (simp add: Let_def)
    from Cons.IH [OF this] False show ?thesis by (auto simp: id_less_def)
  qed
qed

lemma idless_inv_step:
  assumes inv: "idless_inv s"
    and it: "media_iteration MEDIA_API s = Continue s' \<or> media_iteration MEDIA_API s = Break s'"
  shows "idless_inv s'"
proof -
  obtain r w' where call: "MEDIA_API (world s) (page_num s) (per_page s) = (r, w')"
    by (cases "MEDIA_API (world s) (page_num s) (per_page s)")
  note unfold = media_iteration_cases [where MEDIA_API = MEDIA_API and st = s, OF call]
  show ?thesis
  proof (cases r)
    case Transport_error
    with it inv show ?thesis
      by (auto simp: unfold idless_inv_def)
  next
    case (Http code data)
    obtain items seen new where sc: "scan_items data (all_items s, all_seen_ids s, []) = (items, seen, new)"
      by (cases "scan_items data (all_items s, all_seen_ids s, [])")
    let ?B = "filter id_less (concat (map ok_batch (exchanges s)))"
    from inv have i1: "None \<in> all_seen_ids s \<longleftrightarrow> ?B \<noteq> []"
      and i2: "filter id_less (all_items s) = take 1 ?B"
      by (simp_all add: idless_inv_def)
    from scan_items_id_less [OF sc]
    have f: "filter id_less items =
         filter id_less (all_items s) @ (if None \<in> all_seen_ids s then [] else take 1 (filter id_less data))"
      and n: "None \<in> seen \<longleftrightarrow> None \<in> all_seen_ids s \<or> filter id_less data \<noteq> []"
      by simp_all
    have t: "filter id_less items = take 1 (?B @ filter id_less data)"
    proof (cases "?B = []")
      case True
      with f i1 i2 show ?thesis by simp
    next
      case False
      then have "take 1 (?B @ filter id_less data) = take 1 ?B" by (cases ?B) simp_all
      with f i1 i2 False show ?thesis by simp
    qed
    have scanned: "idless_inv (s\<lparr>world := w', exchanges := exchanges s @ [(page_num s, per_page s, Http 200 data)],
         all_items := items, all_seen_ids := seen, page_num := pg\<rparr>)" for pg
      using t n i1 by (simp add: idless_inv_def)
    have scanned': "idless_inv (s\<lparr>world := w', exchanges := exchanges s @ [(page_num s, per_page s, Http 200 data)],
         all_items := items, all_seen_ids := seen\<rparr>)"
      using t n i1 by (simp add: idless_inv_def)
    have plain: "idless_inv (s\<lparr>world := w', exchanges := exchanges s @ [(page_num s, per_page s, Http code data)]\<rparr>)"
      if "code \<noteq> 200 \<or> data = []"
      using that inv by (auto simp: idless_inv_def)
    have plain': "idless_inv (s\<lparr>world := w', exchanges := exchanges s @ [(page_num s, per_page s, Http code data)],
        per_page := n\<rparr>)"
      if "code \<noteq> 200 \<or> data = []" for n
      using that inv by (auto simp: idless_inv_def)
    from it Http sc scanned scanned' plain plain' show ?thesis
      by (auto simp: unfold split: if_splits)
  qed
qed

lemma media_idless_inv:
  assumes "fetch_all_media_items MEDIA_API w = Some r"
  shows "idless_inv r"
proof (rule while_true_invariant [where I = idless_inv and Q = idless_inv and body = "media_iteration MEDIA_API"])
  show "while_true (media_iteration MEDIA_API) (media_start w) = Some r"
    using assms by (simp add: fetch_all_media_items_def)
  show "idless_inv (media_start w)" by (simp add: idless_inv_def media_start_def)
qed (blast intro: idless_inv_step)+

text \<open>
  Claim C9.  The items without an id share the key \<^verbatim>\<open>None\<close> in the seen ids: of all the
  items without an id that a run of \<^verbatim>\<open>fetch_all_media_items\<close> receives, on whatever
  pages, it returns the first and drops every later one; so it returns at most one.
\<close>

theorem media_keeps_one_item_without_id:
  assumes run: "fetch_all_media_items MEDIA_API w = Some r"
  shows "filter id_less (all_items r) =
           take 1 (filter id_less (concat (map ok_batch (exchanges r)))) \<and>
         length (filter id_less (all_items r)) \<le> 1"
proof -
  from media_idless_inv [OF run]
  have "filter id_less (all_items r) = take 1 (filter id_less (concat (map ok_batch (exchanges r))))"
    by (simp add: idless_inv_def)
  then show ?thesis by simp
qed

text \<open>
  The mock endpoint serves an item without an id on page 1 and another on page 2; the
  run returns one.
\<close>

theorem media_keeps_one_item_without_id_witness:
  "fetch_all_media_items demo_media_api () = Some demo_media_result \<and>
   filter id_less (concat (map ok_batch (exchanges demo_media_result))) = [mk_item None, mk_item None] \<and>
   filter id_less (all_items demo_media_result) = [mk_item None]"
proof -
  have run: "fetch_all_media_items demo_media_api () = Some demo_media_result"
    by code_simp
  have recv: "filter id_less (concat (map ok_batch (exchanges demo_media_result))) = [mk_item None, mk_item None]"
    by (simp add: demo_media_result_def id_less_def mk_item_def)
  from media_keeps_one_item_without_id [OF run] recv run show ?thesis by simp
qed

section \<open>The shape of a run of the posts paginator: proofs\<close>

lemma posts_shape_snoc:
  assumes "\<forall>i < length t. ex_page (t ! i) = int i + 1 \<and> ex_size (t ! i) = 20 \<and> is_page (ex_resp (t ! i))"
    and "ex_page e = int (length t) + 1" and "ex_size e = 20"
  shows "\<forall>i < length (t @ [e]).
        ex_page ((t @ [e]) ! i) = int i + 1 \<and> ex_size ((t @ [e]) ! i) = 20 \<and>
        (is_page (ex_resp ((t @ [e]) ! i)) \<longleftrightarrow> Suc i < length (t @ [e]) \<or> is_page (ex_resp e))"
proof (intro allI impI)
  fix i assume "i < length (t @ [e])"
  then consider "i < length t" | "i = length t" by fastforce
  then show "ex_page ((t @ [e]) ! i) = int i + 1 \<and> ex_size ((t @ [e]) ! i) = 20 \<and>
        (is_page (ex_resp ((t @ [e]) ! i)) \<longleftrightarrow> Suc i < length (t @ [e]) \<or> is_page (ex_resp e))"
    using assms by cases (simp_all add: nth_append)
qed

lemma posts_shape_Continue:
  assumes inv: "posts_shape_inv s" and it: "posts_iteration POSTS_API s = Continue s'"
  shows "posts_shape_inv s'"
proof -
  obtain r w' where call: "POSTS_API (p_world s) (p_page_num s) (p_per_page s) = (r, w')"
    by (cases "POSTS_API (p_world s) (p_page_num s) (p_per_page s)")
  note unfold = posts_iteration_cases [where POSTS_API = POSTS_API and st = s, OF call]
  let ?e = "(p_page_num s, p_per_page s, r)"
  from inv have old: "\<forall>i < length (p_exchanges s). ex_page (p_exchanges s ! i) = int i + 1 \<and>
      ex_size (p_exchanges s ! i) = 20 \<and> is_page (ex_resp (p_exchanges s ! i))"
    and pg: "ex_page ?e = int (length (p_exchanges s)) + 1" and sz: "ex_size ?e = 20"
    by (simp_all add: posts_shape_inv_def)
  from it have page: "is_page (ex_resp ?e)"
    and s': "p_exchanges s' = p_exchanges s @ [?e]" "p_per_page s' = p_per_page s"
       "p_page_num s' = p_page_num s + 1"
    by (cases r; auto simp: unfold split: if_splits)+
  from posts_shape_snoc [OF old pg sz] page s' inv show ?thesis
    by (simp add: posts_shape_inv_def)
qed

lemma posts_shape_Break:
  assumes inv: "posts_shape_inv s" and it: "posts_iteration POSTS_API s = Break s'"
  shows "posts_shape_final s'"
proof -
  obtain r w' where call: "POSTS_API (p_world s) (p_page_num s) (p_per_page s) = (r, w')"
    by (cases "POSTS_API (p_world s) (p_page_num s) (p_per_page s)")
  note unfold = posts_iteration_cases [where POSTS_API = POSTS_API and st = s, OF call]
  let ?e = "(p_page_num s, p_per_page s, r)"
  from inv have old: "\<forall>i < length (p_exchanges s). ex_page (p_exchanges s ! i) = int i + 1 \<and>
      ex_size (p_exchanges s ! i) = 20 \<and> is_page (ex_resp (p_exchanges s ! i))"
    and pg: "ex_page ?e = int (length (p_exchanges s)) + 1" and sz: "ex_size ?e = 20"
    by (simp_all add: posts_shape_inv_def)
  from it have page: "\<not> is_page (ex_resp ?e)"
    and s': "p_exchanges s' = p_exchanges s @ [?e]"
    by (cases r; auto simp: unfold split: if_splits)+
  from posts_shape_snoc [OF old pg sz] page s' show ?thesis
    by (simp add: posts_shape_final_def)
qed

lemma posts_shape:
  assumes "fetch_all_posts POSTS_API w = Some r"
  shows "posts_shape_final r"
proof (rule while_true_invariant [where I = posts_shape_inv and Q = posts_shape_final and body = "posts_iteration POSTS_API"])
  show "while_true (posts_iteration POSTS_API) (posts_start w) = Some r"
    using assms by (simp add: fetch_all_posts_def)
  show "posts_shape_inv (posts_start w)" by (simp add: posts_shape_inv_def posts_start_def)
qed (blast intro: posts_shape_Continue posts_shape_Break)+

text \<open>
  Claim C6, as amended.  \<^verbatim>\<open>fetch_all_posts\<close> asks for the pages 1, 2, 3, ... in turn,
  each with page size 20; it goes on to the next page after a 200 with a non-empty batch,
  whatever the ids in it, and every other outcome ends it: a transport error, a 200 with
  an empty batch, and any other status, a 400 included, which is not retried at a smaller
  page size.
\<close>

theorem posts_fixed_page_size:
  assumes run: "fetch_all_posts POSTS_API w = Some r"
  shows "p_exchanges r \<noteq> [] \<and>
         (\<forall>i < length (p_exchanges r).
            ex_page (p_exchanges r ! i) = int i + 1 \<and> ex_size (p_exchanges r ! i) = 20 \<and>
            (is_page (ex_resp (p_exchanges r ! i)) \<longleftrightarrow> Suc i < length (p_exchanges r)) \<and>
            (is_400 (ex_resp (p_exchanges r ! i)) \<longrightarrow> Suc i = length (p_exchanges r)))"
proof -
  from posts_shape [OF run]
  have ne: "p_exchanges r \<noteq> []"
    and sh: "\<forall>i < length (p_exchanges r).
        ex_page (p_exchanges r ! i) = int i + 1 \<and> ex_size (p_exchanges r ! i) = 20 \<and>
        (is_page (ex_resp (p_exchanges r ! i)) \<longleftrightarrow> Suc i < length (p_exchanges r))"
    by (simp_all add: posts_shape_final_def)
  have "Suc i = length (p_exchanges r)"
    if "i < length (p_exchanges r)" "is_400 (ex_resp (p_exchanges r ! i))" for i
  proof -
    from that(2) have "\<not> is_page (ex_resp (p_exchanges r ! i))"
      by (cases "ex_resp (p_exchanges r ! i)") simp_all
    with sh that(1) show ?thesis by auto
  qed
  with ne sh show ?thesis by blast
qed

text \<open>
  The posts endpoint that repeats a post: pages 1 and 2 are non-empty and are followed by
  a next request, page 3 is empty and is the last.
\<close>

theorem posts_fixed_page_size_witness:
  "fetch_all_posts drifting_posts_api () = Some drifting_posts_result \<and>
   map ex_page (p_exchanges drifting_posts_result) = [1, 2, 3] \<and>
   map ex_size (p_exchanges drifting_posts_result) = [20, 20, 20] \<and>
   map (is_page \<circ> ex_resp) (p_exchanges drifting_posts_result) = [True, True, False] \<and>
   fetch_all_posts picky_posts_api () = Some picky_posts_result \<and>
   is_400 (ex_resp (p_exchanges picky_posts_result ! 0)) \<and>
   Suc 0 = length (p_exchanges picky_posts_result)"
proof -
  have run: "fetch_all_posts drifting_posts_api () = Some drifting_posts_result"
    by code_simp
  have run': "fetch_all_posts picky_posts_api () = Some picky_posts_result"
    by code_simp
  have ev: "map ex_page (p_exchanges drifting_posts_result) = [1, 2, 3]"
    "map ex_size (p_exchanges drifting_posts_result) = [20, 20, 20]"
    "map (is_page \<circ> ex_resp) (p_exchanges drifting_posts_result) = [True, True, False]"
    "is_400 (ex_resp (p_exchanges picky_posts_result ! 0))"
    "0 < length (p_exchanges picky_posts_result)"
    by (simp_all add: drifting_posts_result_def picky_posts_result_def mk_post_def)
  from posts_fixed_page_size [OF run] posts_fixed_page_size [OF run'] run run' ev
  show ?thesis by blast
qed

text \<open>
  Claim C6 as stated fails: the endpoint answers 400 to page size 20 and would accept
  page size 10, and \<^verbatim>\<open>fetch_all_posts\<close> makes the one request and stops, where the media
  paginator would have halved the page size and asked for page 1 again.
\<close>

theorem posts_stop_on_400:
  "map_option p_exchanges (fetch_all_posts picky_posts_api ()) = Some [(1, 20, Http 400 [])]"
  by code_simp

section \<open>Termination of the media paginator: proofs\<close>

lemma scan_items_new_empty:
  assumes "scan_items data (items, seen, []) = (items', seen', new)"
  shows "new = [] \<longleftrightarrow> m_id ` set data \<subseteq> seen"
proof
  assume "new = []"
  with scan_items_spec [OF assms] show "m_id ` set data \<subseteq> seen" by auto
next
  assume "m_id ` set data \<subseteq> seen"
  from scan_items_all_seen [OF this, of items "[]"] assms show "new = []" by simp
qed

text \<open>An iteration that continues has advanced the page or halved the page size.\<close>

lemma media_iteration_Continue:
  assumes it: "media_iteration MEDIA_API st = Continue st'"
  shows "world st' = snd (MEDIA_API (world st) (page_num st) (per_page st)) \<and>
     ((\<exists>data. fst (MEDIA_API (world st) (page_num st) (per_page st)) = Http 200 data \<and>
         all_seen_ids st' = all_seen_ids st \<union> m_id ` set data) \<and>
       page_num st' = page_num st + 1 \<and> per_page st' = per_page st \<and>
       all_seen_ids st \<subset> all_seen_ids st' \<or>
      page_num st' = page_num st \<and> 1 < per_page st \<and> per_page st' = per_page st div 2 \<and>
       all_seen_ids st' = all_seen_ids st)"
proof -
  obtain r w' where call: "MEDIA_API (world st) (page_num st) (per_page st) = (r, w')"
    by (cases "MEDIA_API (world st) (page_num st) (per_page st)")
  note unfold = media_iteration_cases [where MEDIA_API = MEDIA_API and st = st, OF call]
  show ?thesis
  proof (cases r)
    case Transport_error
    with it show ?thesis by (simp add: unfold)
  next
    case (Http code data)
    show ?thesis
    proof (cases "code = 400")
      case True
      with it Http call show ?thesis by (auto simp: unfold split: if_splits)
    next
      case False
      obtain items seen' new where sc: "scan_items data (all_items st, all_seen_ids st, []) = (items, seen', new)"
        by (cases "scan_items data (all_items st, all_seen_ids st, [])")
      from it Http False sc have c200: "code = 200" and new: "new \<noteq> []"
        and s': "st' = st\<lparr>world := w', exchanges := exchanges st @ [(page_num st, per_page st, r)],
                    all_items := items, all_seen_ids := seen', page_num := page_num st + 1\<rparr>"
        by (auto simp: unfold split: if_splits)
      from scan_items_spec [OF sc] have seen': "seen' = all_seen_ids st \<union> m_id ` set data" by auto
      from new scan_items_new_empty [OF sc] have "\<not> m_id ` set data \<subseteq> all_seen_ids st" by simp
      with seen' have "all_seen_ids st \<subset> seen'" by auto
      with s' seen' call Http c200 show ?thesis by simp
    qed
  qed
qed

text \<open>The outcomes that end the loop.\<close>

lemma media_iteration_Break_iff:
  assumes call: "MEDIA_API (world st) (page_num st) (per_page st) = (r, w')"
  shows "(\<exists>st'. media_iteration MEDIA_API st = Break st') \<longleftrightarrow>
     (case r of
        Transport_error \<Rightarrow> True
      | Http status_code data \<Rightarrow>
          if status_code = 400 then per_page st \<le> 1
          else if status_code = 200 then data = [] \<or> m_id ` set data \<subseteq> all_seen_ids st
          else True)"
proof (cases r)
  case Transport_error
  then show ?thesis
    by (simp add: media_iteration_cases [where MEDIA_API = MEDIA_API and st = st, OF call])
next
  case (Http code data)
  obtain items seen' new where sc: "scan_items data (all_items st, all_seen_ids st, []) = (items, seen', new)"
    by (cases "scan_items data (all_items st, all_seen_ids st, [])")
  from scan_items_new_empty [OF sc] Http sc show ?thesis
    by (auto simp: media_iteration_cases [where MEDIA_API = MEDIA_API and st = st, OF call])
qed

lemma media_terminates:
  assumes fin: "finite (ids_ever_returned MEDIA_API w)"
  shows "\<exists>r. fetch_all_media_items MEDIA_API w = Some r"
proof -
  let ?U = "ids_ever_returned MEDIA_API w"
  let ?I = "\<lambda>s. world s \<in> worlds MEDIA_API w \<and> all_seen_ids s \<subseteq> ?U"
  let ?m = "\<lambda>s. (card (?U - all_seen_ids s), nat (per_page s))"
  let ?R = "inv_image (less_than <*lex*> less_than) ?m"
  have "\<exists>r. while_true (media_iteration MEDIA_API) (media_start w) = Some r"
  proof (rule while_true_terminates [where R = ?R and I = ?I])
    show "wf ?R" by (intro wf_inv_image wf_lex_prod wf_less_than)
    show "?I (media_start w)" by (simp add: media_start_def worlds.start)
  next
    fix s s' assume inv: "?I s" and it: "media_iteration MEDIA_API s = Continue s'"
    let ?call = "MEDIA_API (world s) (page_num s) (per_page s)"
    note c = media_iteration_Continue [OF it]
    from c inv have w': "world s' \<in> worlds MEDIA_API w"
      by (simp add: worlds.serve)
    from c consider
      (page) data where "fst ?call = Http 200 data" "all_seen_ids s' = all_seen_ids s \<union> m_id ` set data"
         "all_seen_ids s \<subset> all_seen_ids s'"
      | (shrink) "1 < per_page s" "per_page s' = per_page s div 2" "all_seen_ids s' = all_seen_ids s"
      by blast
    then show "?I s' \<and> (s', s) \<in> ?R"
    proof cases
      case page
      have "m_id ` set data \<subseteq> ?U"
      proof
        fix i assume "i \<in> m_id ` set data"
        with page(1) inv show "i \<in> ?U"
          unfolding ids_ever_returned_def by blast
      qed
      with page(2) inv have sub: "all_seen_ids s' \<subseteq> ?U" by simp
      with page(3) have "?U - all_seen_ids s' \<subset> ?U - all_seen_ids s" by auto
      with fin have "card (?U - all_seen_ids s') < card (?U - all_seen_ids s)"
        by (simp add: psubset_card_mono)
      with w' sub show ?thesis by simp
    next
      case shrink
      then have "nat (per_page s') < nat (per_page s)" by simp
      with w' shrink(3) inv show ?thesis by simp
    qed
  qed
  then show ?thesis by (simp add: fetch_all_media_items_def)
qed

text \<open>
  Claim C4, as amended.  An iteration of the loop of \<^verbatim>\<open>fetch_all_media_items\<close> that
  does not end the loop has either advanced the page number by 1, after a 200 with an id
  not seen before, or halved a page size above 1, after a 400, on the same page.  The
  loop ends on a transport error, on a status other than 200 and 400, on a 200 with an
  empty batch or with no id not seen before, and on a 400 at page size 1.  Against an
  endpoint that can only ever return finitely many different ids, the function returns.
  (Against an endpoint that brings an id not seen before on every page it does not.)
\<close>

theorem media_terminates_on_finite_ids:
  "(media_iteration MEDIA_API st = Continue st' \<longrightarrow>
      page_num st' = page_num st + 1 \<and> per_page st' = per_page st \<and>
        all_seen_ids st \<subset> all_seen_ids st' \<or>
      page_num st' = page_num st \<and> 1 < per_page st \<and> per_page st' = per_page st div 2 \<and>
        all_seen_ids st' = all_seen_ids st) \<and>
   (MEDIA_API (world st) (page_num st) (per_page st) = (r, w') \<longrightarrow>
      ((\<exists>st'. media_iteration MEDIA_API st = Break st') \<longleftrightarrow>
        (case r of
           Transport_error \<Rightarrow> True
         | Http status_code data \<Rightarrow>
             if status_code = 400 then per_page st \<le> 1
             else if status_code = 200 then data = [] \<or> m_id ` set data \<subseteq> all_seen_ids st
             else True))) \<and>
   (finite (ids_ever_returned MEDIA_API w) \<longrightarrow> (\<exists>res. fetch_all_media_items MEDIA_API w = Some res))"
proof (intro conjI impI)
  assume "media_iteration MEDIA_API st = Continue st'"
  from media_iteration_Continue [OF this]
  show "page_num st' = page_num st + 1 \<and> per_page st' = per_page st \<and>
        all_seen_ids st \<subset> all_seen_ids st' \<or>
      page_num st' = page_num st \<and> 1 < per_page st \<and> per_page st' = per_page st div 2 \<and>
        all_seen_ids st' = all_seen_ids st"
    by blast
next
  assume "MEDIA_API (world st) (page_num st) (per_page st) = (r, w')"
  then show "(\<exists>st'. media_iteration MEDIA_API st = Break st') \<longleftrightarrow>
        (case r of
           Transport_error \<Rightarrow> True
         | Http status_code data \<Rightarrow>
             if status_code = 400 then per_page st \<le> 1
             else if status_code = 200 then data = [] \<or> m_id ` set data \<subseteq> all_seen_ids st
             else True)"
    by (rule media_iteration_Break_iff)
next
  assume "finite (ids_ever_returned MEDIA_API w)"
  then show "\<exists>res. fetch_all_media_items MEDIA_API w = Some res"
    by (rule media_terminates)
qed

text \<open>
  The mock endpoint can return three different ids.  Its first answer is a 400 at page
  size 100, after which the loop asks for page 1 again with page size 50; and the run
  returns.
\<close>

theorem media_terminates_on_finite_ids_witness:
  "media_iteration demo_media_api (media_start ()) = Continue demo_media_first \<and>
   page_num demo_media_first = page_num (media_start ()) \<and>
   per_page demo_media_first = per_page (media_start ()) div 2 \<and>
   demo_media_api (world (media_start ())) (page_num (media_start ())) (per_page (media_start ()))
     = (Http 400 [], ()) \<and>
   finite (ids_ever_returned demo_media_api ()) \<and>
   (\<exists>res. fetch_all_media_items demo_media_api () = Some res)"
proof -
  have step: "media_iteration demo_media_api (media_start ()) = Continue demo_media_first"
    by (simp add: media_iteration_def media_start_def demo_media_api_def demo_media_first_def
        INITIAL_PER_PAGE_def MIN_PER_PAGE_def)
  have call: "demo_media_api (world (media_start ())) (page_num (media_start ())) (per_page (media_start ()))
     = (Http 400 [], ())"
    by (simp add: media_start_def demo_media_api_def INITIAL_PER_PAGE_def)
  have "ids_ever_returned demo_media_api () \<subseteq> {Some 1, None, Some 2}"
    by (auto simp: ids_ever_returned_def demo_media_api_def mk_item_def split: if_splits)
  then have fin: "finite (ids_ever_returned demo_media_api ())"
    by (rule finite_subset) simp
  have ev: "page_num demo_media_first = page_num (media_start ())"
    "per_page demo_media_first = per_page (media_start ()) div 2"
    by (simp_all add: demo_media_first_def media_start_def INITIAL_PER_PAGE_def)
  from media_terminates_on_finite_ids [of demo_media_api "media_start ()" demo_media_first
      "Http 400 []" "()" "()"] step call fin ev
  show ?thesis by blast
qed

text \<open>
  Claim C4 as stated fails: against the endpoint whose page \<open>k\<close> is one item with id
  \<open>k\<close>, every iteration finds an id not seen before and goes on to the next page, and
  \<^verbatim>\<open>fetch_all_media_items\<close> never returns.
\<close>

theorem media_never_returns_on_endless_ids: "fetch_all_media_items endless_media_api () = None"
proof -
  let ?I = "\<lambda>s::unit media_state. \<forall>k. Some k \<in> all_seen_ids s \<longrightarrow> k < page_num s"
  have "while_true (media_iteration endless_media_api) (media_start ()) = None"
  proof (rule while_true_diverges [where I = ?I])
    show "?I (media_start ())" by (simp add: media_start_def)
  next
    fix s :: "unit media_state" assume inv: "?I s"
    then have "Some (page_num s) \<notin> all_seen_ids s" by auto
    then have "media_iteration endless_media_api s =
       Continue (s\<lparr>world := (), exchanges := exchanges s @
                     [(page_num s, per_page s, Http 200 [mk_item (Some (page_num s))])],
                   all_items := all_items s @ [mk_item (Some (page_num s))],
                   all_seen_ids := insert (Some (page_num s)) (all_seen_ids s),
                   page_num := page_num s + 1\<rparr>)"
      by (simp add: media_iteration_def endless_media_api_def Let_def mk_item_def)
    with inv show "\<exists>s'. media_iteration endless_media_api s = Continue s' \<and> ?I s'"
      by (auto intro: less_trans)
  qed
  then show ?thesis by (simp add: fetch_all_media_items_def)
qed

section \<open>The date subfolder: proofs\<close>

lemma fromisoformat_raises_ValueError: "fromisoformat s = Inl e \<Longrightarrow> e = ValueError"
  by (auto simp: fromisoformat_def split: option.splits prod.splits if_splits)

lemma digit_char_is_digit: "is_digit (digit_char n)"
proof -
  have "n mod 10 < length ''0123456789''" by simp
  then have "''0123456789'' ! (n mod 10) \<in> set ''0123456789''" by (rule nth_mem)
  then show ?thesis by (simp only: is_digit_def digit_char_def)
qed

lemma decimal_digits: "list_all is_digit (decimal n)"
proof (induction n rule: decimal.induct)
  case (1 n)
  show ?case
  proof (cases "n < 10")
    case True
    then show ?thesis by (subst decimal.simps) (simp add: digit_char_is_digit)
  next
    case False
    with 1 show ?thesis by (subst decimal.simps) (simp add: digit_char_is_digit)
  qed
qed

lemma length_decimal:
  assumes "n < 10000"
  shows "length (decimal n) =
           (if n < 10 then 1 else if n < 100 then 2 else if n < 1000 then 3 else 4)"
proof -
  have d1: "length (decimal k) = 1" if "k < 10" for k
    using that by (subst decimal.simps) simp
  have d2: "length (decimal k) = 2" if "10 \<le> k" "k < 100" for k
  proof -
    from that have "k div 10 < 10" by simp
    with that d1 [of "k div 10"] show ?thesis by (subst decimal.simps) simp
  qed
  have d3: "length (decimal k) = 3" if "100 \<le> k" "k < 1000" for k
  proof -
    from that have "10 \<le> k div 10" "k div 10 < 100" by simp_all
    with that d2 [of "k div 10"] show ?thesis by (subst decimal.simps) simp
  qed
  have d4: "length (decimal k) = 4" if "1000 \<le> k" "k < 10000" for k
  proof -
    from that have "100 \<le> k div 10" "k div 10 < 1000" by simp_all
    with that d3 [of "k div 10"] show ?thesis by (subst decimal.simps) simp
  qed
  from assms d1 [of n] d2 [of n] d3 [of n] d4 [of n] show ?thesis by simp
qed

lemma strftime_Ymd_width: "is_bucket_of_width (length (decimal (year dt))) (strftime_Ymd dt)"
  by (simp add: is_bucket_of_width_def strftime_Ymd_def nth_append decimal_digits
      digit_char_is_digit)

lemma is_date_bucket_width: "is_date_bucket b \<longleftrightarrow> is_bucket_of_width 4 b"
  by (auto simp: is_date_bucket_def is_bucket_of_width_def)

lemma strftime_Ymd_bucket:
  assumes "year dt < 10000"
  shows "is_date_bucket (strftime_Ymd dt) \<or> is_short_year_bucket (strftime_Ymd dt)"
    and "1000 \<le> year dt \<Longrightarrow> is_date_bucket (strftime_Ymd dt)"
proof -
  from length_decimal [OF assms] strftime_Ymd_width [of dt]
  show "is_date_bucket (strftime_Ymd dt) \<or> is_short_year_bucket (strftime_Ymd dt)"
    by (auto simp: is_date_bucket_width is_short_year_bucket_def split: if_splits)
  from length_decimal [OF assms] strftime_Ymd_width [of dt]
  show "is_date_bucket (strftime_Ymd dt)" if "1000 \<le> year dt"
    using that by (simp add: is_date_bucket_width)
qed

lemma fromisoformat_year: "fromisoformat s = Inr dt \<Longrightarrow> 1 \<le> year dt \<and> year dt < 10000"
  by (auto simp: fromisoformat_def split: option.splits prod.splits if_splits)

lemma get_date_subfolder_str:
  "get_date_subfolder (Py_str s) =
     (case fromisoformat (filter (\<lambda>c. c \<noteq> CHR ''Z'') s) of
        Inl e \<Rightarrow> Inr ''unknown-date'' | Inr dt \<Rightarrow> Inr (strftime_Ymd dt))"
  by (auto simp: get_date_subfolder_def replace_Z_def split: sum.splits
      dest: fromisoformat_raises_ValueError)

text \<open>
  Claim C8.  The timestamp \<^verbatim>\<open>2024-01-15T10:12:30\<close> resolves to the bucket \<^verbatim>\<open>2024-01-15\<close>,
  with a trailing \<^verbatim>\<open>Z\<close> too; the empty string and \<^verbatim>\<open>not-a-date\<close> resolve to the sentinel
  \<^verbatim>\<open>unknown-date\<close>, as does every string that fails to parse; a trailing \<^verbatim>\<open>Z\<close> never
  changes the bucket; and the strings that \<^verbatim>\<open>main\<close> and \<^verbatim>\<open>parse_images_from_posts\<close> put
  in the place of an absent timestamp resolve to the sentinel.  None of these raises.
\<close>

theorem date_bucket_or_sentinel:
  "get_date_subfolder (Py_str ''2024-01-15T10:12:30'') = Inr ''2024-01-15'' \<and>
   get_date_subfolder (Py_str []) = Inr ''unknown-date'' \<and>
   get_date_subfolder (Py_str ''not-a-date'') = Inr ''unknown-date'' \<and>
   get_date_subfolder (Py_str ''2024-01-15T10:12:30Z'') = Inr ''2024-01-15'' \<and>
   get_date_subfolder (Py_str (s @ ''Z'')) = get_date_subfolder (Py_str s) \<and>
   (fromisoformat (filter (\<lambda>c. c \<noteq> CHR ''Z'') s) = Inl e \<longrightarrow>
      get_date_subfolder (Py_str s) = Inr ''unknown-date'') \<and>
   get_date_subfolder (Py_str (or_default None [])) = Inr ''unknown-date'' \<and>
   get_date_subfolder (Py_str (or_default None ''unknown-date'')) = Inr ''unknown-date''"
proof -
  have 1: "get_date_subfolder (Py_str ''2024-01-15T10:12:30'') = Inr ''2024-01-15''"
    by code_simp
  have 2: "get_date_subfolder (Py_str []) = Inr ''unknown-date''"
    by code_simp
  have 3: "get_date_subfolder (Py_str ''not-a-date'') = Inr ''unknown-date''"
    by code_simp
  have 4: "get_date_subfolder (Py_str ''2024-01-15T10:12:30Z'') = Inr ''2024-01-15''"
    by code_simp
  have 5: "get_date_subfolder (Py_str (s @ ''Z'')) = get_date_subfolder (Py_str s)"
    by (simp add: get_date_subfolder_str)
  have 6: "fromisoformat (filter (\<lambda>c. c \<noteq> CHR ''Z'') s) = Inl e \<longrightarrow>
      get_date_subfolder (Py_str s) = Inr ''unknown-date''"
    by (simp add: get_date_subfolder_str)
  have 7: "get_date_subfolder (Py_str (or_default None [])) = Inr ''unknown-date''"
    using 2 by (simp add: or_default_def)
  have 8: "get_date_subfolder (Py_str (or_default None ''unknown-date'')) = Inr ''unknown-date''"
    by code_simp
  from 1 2 3 4 5 6 7 8 show ?thesis by blast
qed

text \<open>February 30th fails to parse, and resolves to the sentinel.\<close>

theorem date_bucket_or_sentinel_witness:
  "fromisoformat (filter (\<lambda>c. c \<noteq> CHR ''Z'') ''2024-02-30T08:00:00Z'') = Inl ValueError \<and>
   get_date_subfolder (Py_str ''2024-02-30T08:00:00Z'') = Inr ''unknown-date''"
proof -
  have h: "fromisoformat (filter (\<lambda>c. c \<noteq> CHR ''Z'') ''2024-02-30T08:00:00Z'') = Inl ValueError"
    by code_simp
  with date_bucket_or_sentinel [of "''2024-02-30T08:00:00Z''" ValueError] show ?thesis
    by blast
qed

text \<open>
  What holds of \<^verbatim>\<open>get_date_subfolder\<close> on every string: it returns, and what it returns
  is the sentinel \<^verbatim>\<open>unknown-date\<close> or the bucket of a date, of the form \<^verbatim>\<open>YYYY-MM-DD\<close>
  when the year is 1000 or later and with a shorter year otherwise.  The only exception
  the parsing of a string raises is \<^verbatim>\<open>ValueError\<close>, which is caught.  On \<^verbatim>\<open>None\<close> or a
  number the call of \<^verbatim>\<open>replace\<close> raises \<^verbatim>\<open>AttributeError\<close>, which is not caught.
\<close>

lemma get_date_subfolder_total_on_strings:
  "(\<exists>b. get_date_subfolder (Py_str s) = Inr b \<and>
        (b = ''unknown-date'' \<or> is_date_bucket b \<or> is_short_year_bucket b)) \<and>
   (fromisoformat (filter (\<lambda>c. c \<noteq> CHR ''Z'') s) = Inr dt \<and> 1000 \<le> year dt \<longrightarrow>
      get_date_subfolder (Py_str s) = Inr (strftime_Ymd dt) \<and> is_date_bucket (strftime_Ymd dt)) \<and>
   (fromisoformat t = Inl e \<longrightarrow> e = ValueError) \<and>
   get_date_subfolder Py_none = Inl AttributeError \<and>
   get_date_subfolder (Py_int n) = Inl AttributeError"
proof (intro conjI impI)
  show "\<exists>b. get_date_subfolder (Py_str s) = Inr b \<and>
        (b = ''unknown-date'' \<or> is_date_bucket b \<or> is_short_year_bucket b)"
  proof (cases "fromisoformat (filter (\<lambda>c. c \<noteq> CHR ''Z'') s)")
    case (Inl e')
    then show ?thesis by (simp add: get_date_subfolder_str)
  next
    case (Inr dt')
    from fromisoformat_year [OF Inr] have "year dt' < 10000" by simp
    from strftime_Ymd_bucket(1) [OF this] Inr show ?thesis
      by (auto simp: get_date_subfolder_str)
  qed
next
  assume h: "fromisoformat (filter (\<lambda>c. c \<noteq> CHR ''Z'') s) = Inr dt \<and> 1000 \<le> year dt"
  then show "get_date_subfolder (Py_str s) = Inr (strftime_Ymd dt)"
    by (simp add: get_date_subfolder_str)
  from h fromisoformat_year [of "filter (\<lambda>c. c \<noteq> CHR ''Z'') s" dt]
  have "year dt < 10000" by simp
  from strftime_Ymd_bucket(2) [OF this] h show "is_date_bucket (strftime_Ymd dt)" by simp
next
  show "e = ValueError" if "fromisoformat t = Inl e"
    using that by (rule fromisoformat_raises_ValueError)
  show "get_date_subfolder Py_none = Inl AttributeError"
    by (simp add: get_date_subfolder_def replace_Z_def)
  show "get_date_subfolder (Py_int n) = Inl AttributeError"
    by (simp add: get_date_subfolder_def replace_Z_def)
qed

text \<open>A date of the year 2031 gives its bucket of four digits; a word gives the sentinel.\<close>

lemma get_date_subfolder_examples:
  "fromisoformat (filter (\<lambda>c. c \<noteq> CHR ''Z'') ''2031-07-04T08:00:00Z'') =
     Inr \<lparr>year = 2031, month = 7, day = 4, hour = 8, minute = 0, second = 0,
          microsecond = 0, utcoffset = None\<rparr> \<and>
   get_date_subfolder (Py_str ''2031-07-04T08:00:00Z'') = Inr ''2031-07-04'' \<and>
   is_date_bucket ''2031-07-04'' \<and>
   fromisoformat ''yesterday'' = Inl ValueError \<and>
   get_date_subfolder (Py_str ''yesterday'') = Inr ''unknown-date'' \<and>
   get_date_subfolder Py_none = Inl AttributeError"
proof -
  let ?dt = "\<lparr>year = 2031, month = 7, day = 4, hour = 8, minute = 0, second = 0,
          microsecond = 0, utcoffset = None\<rparr>"
  have p: "fromisoformat (filter (\<lambda>c. c \<noteq> CHR ''Z'') ''2031-07-04T08:00:00Z'') = Inr ?dt"
    by code_simp
  have y: "1000 \<le> year ?dt" by simp
  have f: "strftime_Ymd ?dt = ''2031-07-04''"
    by code_simp
  have w: "fromisoformat ''yesterday'' = Inl ValueError"
    "get_date_subfolder (Py_str ''yesterday'') = Inr ''unknown-date''"
    by code_simp+
  from get_date_subfolder_total_on_strings [of "''2031-07-04T08:00:00Z''" ?dt "''yesterday''"
      ValueError 0] p y f w
  show ?thesis by simp
qed

text \<open>
  Claim C10.  The claim has it that on every string \<^verbatim>\<open>get_date_subfolder\<close> returns a
  bucket of the form \<^verbatim>\<open>YYYY-MM-DD\<close> or the sentinel, as the docstring of the function
  says.  The code does not: the string \<^verbatim>\<open>0999-01-01\<close> is a date of the year 999, which
  \<^verbatim>\<open>strftime\<close> prints without padding, and the function returns \<^verbatim>\<open>999-01-01\<close>, which is
  neither of the form \<^verbatim>\<open>YYYY-MM-DD\<close> nor the sentinel.
\<close>

theorem short_year_bucket_returned:
  "get_date_subfolder (Py_str ''0999-01-01'') = Inr ''999-01-01'' \<and>
   \<not> is_date_bucket ''999-01-01'' \<and>
   ''999-01-01'' \<noteq> ''unknown-date''"
proof (intro conjI)
  show "get_date_subfolder (Py_str ''0999-01-01'') = Inr ''999-01-01''"
    by code_simp
  show "\<not> is_date_bucket ''999-01-01''"
    by (simp add: is_date_bucket_def)
  show "''999-01-01'' \<noteq> ''unknown-date''"
    by simp
qed

section \<open>The references found in the posts\<close>

lemma spec_normalize_startswith:
  "spec_normalize urljoin SITE_URL img_url =
     (if prefix ''//'' img_url then ''https:'' @ img_url
      else if prefix ''/'' img_url then urljoin SITE_URL img_url
      else img_url)"
  by (auto simp: spec_normalize_def split: list.splits)

lemma parse_images_from_posts_normalized:
  "map fst (parse_images_from_posts urljoin find_all_img SITE_URL posts) =
     map (spec_normalize urljoin SITE_URL) (concat (map (\<lambda>post. find_all_img (p_content post)) posts))"
  by (induction posts) (simp_all add: Let_def spec_normalize_startswith comp_def)


text \<open>
  Claim C7.  The URLs that \<^verbatim>\<open>parse_images_from_posts\<close> returns are the raw references of
  the posts, each normalized by the rule of the specification: a reference that begins
  with \<^verbatim>\<open>//\<close> gets \<^verbatim>\<open>https:\<close> in front; else one that begins with \<^verbatim>\<open>/\<close> is resolved
  against the site URL by \<^verbatim>\<open>urljoin\<close>; any other is unchanged.  On the three references
  of the specification, with the site URL \<^verbatim>\<open>https://site.test\<close>, the results are those
  the specification gives.
\<close>

theorem references_normalized:
  "map fst (parse_images_from_posts urljoin find_all_img SITE_URL posts) =
     map (spec_normalize urljoin SITE_URL)
       (concat (map (\<lambda>post. find_all_img (p_content post)) posts)) \<and>
   spec_normalize urljoin SITE_URL ref =
     (if prefix ''//'' ref then ''https:'' @ ref
      else if prefix ''/'' ref then urljoin SITE_URL ref
      else ref) \<and>
   parse_images_from_posts urllib_urljoin demo_find_all_img ''https://site.test'' [demo_post] =
     [(''https://img.example/x.png'', ''2024-03-01T09:00:00''),
      (''https://site.test/media/x.png'', ''2024-03-01T09:00:00''),
      (''https://cdn.test/x.png'', ''2024-03-01T09:00:00'')]"
proof (intro conjI)
  show "map fst (parse_images_from_posts urljoin find_all_img SITE_URL posts) =
     map (spec_normalize urljoin SITE_URL)
       (concat (map (\<lambda>post. find_all_img (p_content post)) posts))"
    by (rule parse_images_from_posts_normalized)
  show "spec_normalize urljoin SITE_URL ref =
     (if prefix ''//'' ref then ''https:'' @ ref
      else if prefix ''/'' ref then urljoin SITE_URL ref
      else ref)"
    by (rule spec_normalize_startswith)
  show "parse_images_from_posts urllib_urljoin demo_find_all_img ''https://site.test'' [demo_post] =
     [(''https://img.example/x.png'', ''2024-03-01T09:00:00''),
      (''https://site.test/media/x.png'', ''2024-03-01T09:00:00''),
      (''https://cdn.test/x.png'', ''2024-03-01T09:00:00'')]"
    by code_simp
qed

text \<open>The three references of the mock post, normalized by the rule.\<close>

theorem references_normalized_witness:
  "map (spec_normalize urllib_urljoin ''https://site.test'')
     (concat (map (\<lambda>post. demo_find_all_img (p_content post)) [demo_post])) =
     [''https://img.example/x.png'', ''https://site.test/media/x.png'', ''https://cdn.test/x.png''] \<and>
   map fst (parse_images_from_posts urllib_urljoin demo_find_all_img ''https://site.test'' [demo_post]) =
     [''https://img.example/x.png'', ''https://site.test/media/x.png'', ''https://cdn.test/x.png'']"
proof -
  have "map (spec_normalize urllib_urljoin ''https://site.test'')
     (concat (map (\<lambda>post. demo_find_all_img (p_content post)) [demo_post])) =
     [''https://img.example/x.png'', ''https://site.test/media/x.png'', ''https://cdn.test/x.png'']"
    by code_simp
  with references_normalized [of urllib_urljoin demo_find_all_img "''https://site.test''" "[demo_post]"]
  show ?thesis by simp
qed

section \<open>The fallback\<close>

lemma media_downloads_are_no_fetch:
  "filter is_fetch (concat (map (\<lambda>item.
       case m_source_url item of
         None \<Rightarrow> []
       | Some url \<Rightarrow> if url \<noteq> [] then [Call_download_file url (or_default (m_date item) [])]
                     else []) items)) = []"
  by (induction items) (auto split: option.splits)

lemma post_downloads_are_no_fetch:
  "filter is_fetch (map (\<lambda>(img_url, post_date). Call_download_file img_url post_date) images) = []"
  by (induction images) auto

lemma main_fetch_calls:
  "filter is_fetch (calls (main urljoin find_all_img SITE_URL MEDIA_API POSTS_API w)) =
     (case fetch_all_media_items MEDIA_API w of
        None \<Rightarrow> [Call_fetch_all_media_items]
      | Some m \<Rightarrow>
          if all_items m = [] then [Call_fetch_all_media_items, Call_fetch_all_posts]
          else [Call_fetch_all_media_items])"
  by (simp add: main_def Let_def media_downloads_are_no_fetch post_downloads_are_no_fetch
      split: option.splits)

lemma main_first_calls:
  "take 1 (calls (main urljoin find_all_img SITE_URL MEDIA_API POSTS_API w)) =
     [Call_fetch_all_media_items] \<and>
   (case fetch_all_media_items MEDIA_API w of
      None \<Rightarrow> True
    | Some m \<Rightarrow>
        if all_items m = []
        then take 2 (calls (main urljoin find_all_img SITE_URL MEDIA_API POSTS_API w)) =
               [Call_fetch_all_media_items, Call_fetch_all_posts]
        else True)"
  by (simp add: main_def Let_def split: option.splits)

lemma main_returns:
  "returns (main urljoin find_all_img SITE_URL MEDIA_API POSTS_API w) \<longleftrightarrow>
     (case fetch_all_media_items MEDIA_API w of
        None \<Rightarrow> False
      | Some m \<Rightarrow> all_items m = [] \<longrightarrow> fetch_all_posts POSTS_API (world m) \<noteq> None)"
  by (auto simp: main_def Let_def split: option.splits)

text \<open>
  Claim C3.  The first call of \<^verbatim>\<open>main\<close> is \<^verbatim>\<open>fetch_all_media_items\<close>.  When that returns
  an empty list, the next call is \<^verbatim>\<open>fetch_all_posts\<close>, and these two are all the calls of
  paginators that \<^verbatim>\<open>main\<close> makes; in every other case (it returns an item or more, or it
  never returns) \<^verbatim>\<open>fetch_all_media_items\<close> is the one call of a paginator, and
  \<^verbatim>\<open>fetch_all_posts\<close> is not called.  The media paginator is never called a second time.
\<close>

theorem fallback_iff_primary_empty:
  "filter is_fetch (calls (main urljoin find_all_img SITE_URL MEDIA_API POSTS_API w)) =
     (if \<exists>m. fetch_all_media_items MEDIA_API w = Some m \<and> all_items m = []
      then [Call_fetch_all_media_items, Call_fetch_all_posts]
      else [Call_fetch_all_media_items]) \<and>
   take 1 (calls (main urljoin find_all_img SITE_URL MEDIA_API POSTS_API w)) =
     [Call_fetch_all_media_items] \<and>
   (fetch_all_media_items MEDIA_API w = Some m \<and> all_items m = [] \<longrightarrow>
      take 2 (calls (main urljoin find_all_img SITE_URL MEDIA_API POSTS_API w)) =
        [Call_fetch_all_media_items, Call_fetch_all_posts])"
proof (intro conjI impI)
  show "filter is_fetch (calls (main urljoin find_all_img SITE_URL MEDIA_API POSTS_API w)) =
     (if \<exists>m. fetch_all_media_items MEDIA_API w = Some m \<and> all_items m = []
      then [Call_fetch_all_media_items, Call_fetch_all_posts]
      else [Call_fetch_all_media_items])"
    by (cases "fetch_all_media_items MEDIA_API w") (simp_all add: main_fetch_calls)
  show "take 1 (calls (main urljoin find_all_img SITE_URL MEDIA_API POSTS_API w)) =
     [Call_fetch_all_media_items]"
    using main_first_calls [of urljoin find_all_img SITE_URL MEDIA_API POSTS_API w] by blast
  show "take 2 (calls (main urljoin find_all_img SITE_URL MEDIA_API POSTS_API w)) =
        [Call_fetch_all_media_items, Call_fetch_all_posts]"
    if "fetch_all_media_items MEDIA_API w = Some m \<and> all_items m = []"
    using that main_first_calls [of urljoin find_all_img SITE_URL MEDIA_API POSTS_API w] by simp
qed

text \<open>
  The mock site with no media falls back to its one post; the mock site with two media
  items does not.
\<close>

theorem fallback_iff_primary_empty_witness:
  "fetch_all_media_items empty_media_api () = Some empty_media_result \<and>
   all_items empty_media_result = [] \<and>
   main urllib_urljoin demo_find_all_img ''https://site.test'' empty_media_api one_post_api () =
     \<lparr>calls = [Call_fetch_all_media_items, Call_fetch_all_posts,
           Call_download_file ''https://img.example/x.png'' ''2024-03-01T09:00:00'',
           Call_download_file ''https://site.test/media/x.png'' ''2024-03-01T09:00:00'',
           Call_download_file ''https://cdn.test/x.png'' ''2024-03-01T09:00:00''],
      returns = True\<rparr> \<and>
   take 2 (calls (main urllib_urljoin demo_find_all_img ''https://site.test''
      empty_media_api one_post_api ())) = [Call_fetch_all_media_items, Call_fetch_all_posts] \<and>
   fetch_all_media_items small_media_api () = Some small_media_result \<and>
   all_items small_media_result \<noteq> [] \<and>
   main urllib_urljoin demo_find_all_img ''https://site.test'' small_media_api one_post_api () =
     \<lparr>calls = [Call_fetch_all_media_items,
           Call_download_file ''https://site.test/a.png'' ''2024-01-15T10:12:30''],
      returns = True\<rparr>"
proof -
  have m1: "fetch_all_media_items empty_media_api () = Some empty_media_result"
    by code_simp
  have e1: "all_items empty_media_result = []"
    by (simp add: empty_media_result_def)
  have r1: "main urllib_urljoin demo_find_all_img ''https://site.test'' empty_media_api one_post_api () =
     \<lparr>calls = [Call_fetch_all_media_items, Call_fetch_all_posts,
           Call_download_file ''https://img.example/x.png'' ''2024-03-01T09:00:00'',
           Call_download_file ''https://site.test/media/x.png'' ''2024-03-01T09:00:00'',
           Call_download_file ''https://cdn.test/x.png'' ''2024-03-01T09:00:00''],
      returns = True\<rparr>"
    by code_simp
  have m2: "fetch_all_media_items small_media_api () = Some small_media_result"
    by code_simp
  have e2: "all_items small_media_result \<noteq> []"
    by (simp add: small_media_result_def)
  have r2: "main urllib_urljoin demo_find_all_img ''https://site.test'' small_media_api one_post_api () =
     \<lparr>calls = [Call_fetch_all_media_items,
           Call_download_file ''https://site.test/a.png'' ''2024-01-15T10:12:30''],
      returns = True\<rparr>"
    by code_simp
  from fallback_iff_primary_empty [of urllib_urljoin demo_find_all_img "''https://site.test''"
      empty_media_api one_post_api "()" empty_media_result]
    m1 e1 r1 m2 e2 r2
  show ?thesis by blast
qed

end
